theory Spec2Isabelle
  imports Main "HOL-Library.Word"
begin

unbundle bit_operations_syntax

section \<open>JavaScript values used by the deobfuscator\<close>

text \<open>
  A JavaScript string is a sequence of UTF-16 code units; \<open>charCodeAt\<close> reads one
  unit (0 .. 65535) and \<open>String.fromCharCode\<close> builds one from a number modulo 65536.
  Strings that carry data (source text, ciphertexts, keys, plaintexts) are lists of code
  units.  Names that the program only compares with literals (method names, error
  messages) are HOL strings.  A \<open>Uint8Array\<close> is a list of numbers below 256; storing
  a number into it keeps the number modulo 256.
\<close>

type_synonym jsstring = "nat list"

definition units :: "string \<Rightarrow> jsstring" where
  "units s = map of_char s"

definition fromCharCode :: "nat \<Rightarrow> nat" where
  "fromCharCode n = n mod 65536"

definition toUint8 :: "int \<Rightarrow> nat" where
  "toUint8 n = nat (n mod 256)"

text \<open>
  Reading a typed array at index \<open>i % length\<close>: for an empty array \<open>i % 0\<close> is NaN and
  the read yields \<open>undefined\<close>, modelled as \<open>None\<close>.
\<close>

definition at_mod :: "nat list \<Rightarrow> nat \<Rightarrow> nat option" where
  "at_mod b i = (if b = [] then None else Some (b ! (i mod length b)))"

text \<open>\<open>x ^ k\<close> where \<open>k\<close> may be \<open>undefined\<close>: \<open>ToInt32(undefined) = 0\<close>.\<close>

definition xor_undef :: "nat \<Rightarrow> nat option \<Rightarrow> nat" where
  "xor_undef x k = (case k of None \<Rightarrow> x | Some kb \<Rightarrow> x XOR kb)"

section \<open>LuraphDecryptor\<close>

record DecryptionResult =
  dr_success :: bool
  dr_decrypted :: jsstring
  dr_method :: string
  dr_error :: "string option"

record EncryptionInfo =
  ei_method :: string
  ei_key :: jsstring
  ei_iv :: "jsstring option"
  ei_algorithm :: string
  ei_version :: string

definition stringToBytes :: "jsstring \<Rightarrow> nat list" where
  "stringToBytes str = map (\<lambda>c. c mod 256) str"

definition bytesToString :: "nat list \<Rightarrow> jsstring" where
  "bytesToString bytes = map fromCharCode bytes"

text \<open>\<open>xorDecryptV1\<close>: the loop over \<open>i\<close> appends one code unit per iteration.\<close>

definition xorDecryptV1 :: "jsstring \<Rightarrow> jsstring \<Rightarrow> DecryptionResult" where
  "xorDecryptV1 encrypted key =
     (let keyBytes = stringToBytes key;
          result = map (\<lambda>i. fromCharCode (xor_undef (encrypted ! i) (at_mod keyBytes i)))
                       [0..<length encrypted]
      in \<lparr>dr_success = True, dr_decrypted = result, dr_method = ''xor_v1'', dr_error = None\<rparr>)"

text \<open>
  \<open>xorDecryptV2\<close> keeps its own \<open>keyIndex\<close>, stepped modulo the key length.  With an
  empty key \<open>keyBytes[keyIndex]\<close> is \<open>undefined\<close> in every iteration and
  \<open>(undefined + i) & 0xFF\<close> is 0.  The loop state is the remaining input, \<open>i\<close> and
  \<open>keyIndex\<close> (\<open>None\<close> when it has become NaN, after \<open>% 0\<close>).
\<close>

fun xorV2_loop :: "nat list \<Rightarrow> nat list \<Rightarrow> nat \<Rightarrow> nat option \<Rightarrow> nat list" where
  "xorV2_loop keyBytes [] i keyIndex = []"
| "xorV2_loop keyBytes (charCode # rest) i keyIndex =
     (let keyByte = (case keyIndex of
                       None \<Rightarrow> None
                     | Some k \<Rightarrow> if k < length keyBytes then Some (keyBytes ! k) else None);
          rotatedKey = (case keyByte of None \<Rightarrow> 0 | Some kb \<Rightarrow> (kb + i) AND 255)
      in fromCharCode (charCode XOR rotatedKey) #
         xorV2_loop keyBytes rest (i + 1)
           (case keyIndex of
              None \<Rightarrow> None
            | Some k \<Rightarrow> if keyBytes = [] then None else Some ((k + 1) mod length keyBytes)))"

definition xorDecryptV2 :: "jsstring \<Rightarrow> jsstring \<Rightarrow> DecryptionResult" where
  "xorDecryptV2 encrypted key =
     \<lparr>dr_success = True, dr_decrypted = xorV2_loop (stringToBytes key) encrypted 0 (Some 0),
      dr_method = ''xor_v2'', dr_error = None\<rparr>"

definition xorBytes :: "nat list \<Rightarrow> nat list \<Rightarrow> nat list" where
  "xorBytes a b = map (\<lambda>i. xor_undef (a ! i) (at_mod b i) mod 256) [0..<length a]"

definition reverseBitManipulation :: "nat list \<Rightarrow> nat list" where
  "reverseBitManipulation bytes = map (\<lambda>b. (push_bit 3 b OR drop_bit 5 b) AND 255) bytes"

text \<open>\<open>(bytes[i] - keyByte) & 0xFF\<close>; with \<open>keyByte\<close> undefined the difference is NaN, stored as 0.\<close>

definition customSubstitution :: "nat list \<Rightarrow> nat list \<Rightarrow> nat list" where
  "customSubstitution bytes key =
     map (\<lambda>i. case at_mod key i of
                 None \<Rightarrow> 0
               | Some keyByte \<Rightarrow> toUint8 (int (bytes ! i) - int keyByte))
         [0..<length bytes]"

definition luraphCustomDecrypt :: "jsstring \<Rightarrow> jsstring \<Rightarrow> DecryptionResult" where
  "luraphCustomDecrypt encrypted key =
     (let encryptedBytes = stringToBytes encrypted;
          keyBytes = stringToBytes key;
          result1 = xorBytes encryptedBytes keyBytes;
          result2 = reverseBitManipulation result1;
          result3 = customSubstitution result2 keyBytes
      in \<lparr>dr_success = True, dr_decrypted = bytesToString result3,
          dr_method = ''luraph_custom'', dr_error = None\<rparr>)"


subsection \<open>Character classes of JavaScript regular expressions\<close>

definition is_js_space :: "nat \<Rightarrow> bool" where
  "is_js_space c \<longleftrightarrow>
     c \<in> {9, 10, 11, 12, 13, 32, 160, 5760, 8232, 8233, 8239, 8287, 12288, 65279}
     \<or> (8192 \<le> c \<and> c \<le> 8202)"

definition is_digit :: "nat \<Rightarrow> bool" where
  "is_digit c \<longleftrightarrow> 48 \<le> c \<and> c \<le> 57"

definition is_alpha :: "nat \<Rightarrow> bool" where
  "is_alpha c \<longleftrightarrow> (65 \<le> c \<and> c \<le> 90) \<or> (97 \<le> c \<and> c \<le> 122)"

definition is_word :: "nat \<Rightarrow> bool" where
  "is_word c \<longleftrightarrow> is_alpha c \<or> is_digit c \<or> c = 95"

definition is_hex_digit :: "nat \<Rightarrow> bool" where
  "is_hex_digit c \<longleftrightarrow> is_digit c \<or> (65 \<le> c \<and> c \<le> 70) \<or> (97 \<le> c \<and> c \<le> 102)"

definition is_line_terminator :: "nat \<Rightarrow> bool" where
  "is_line_terminator c \<longleftrightarrow> c \<in> {10, 13, 8232, 8233}"

subsection \<open>A matcher for the regular expressions the program uses\<close>

text \<open>
  Every regular expression of the program is a sequence of items: a character class
  with a repetition range (greedy or lazy), a word boundary \<open>\b\<close>, or an anchor
  \<open>^\<close>, \<open>$\<close>.  \<open>rx_match r s i\<close> matches \<open>r\<close> against \<open>s\<close> starting at index
  \<open>i\<close>, backtracking over the repetition counts in JavaScript's order (greedy: longest
  first; lazy: shortest first); it returns the end index after each item, so that the
  text of a capture group can be cut out.
\<close>

datatype rx = Rep "nat \<Rightarrow> bool" nat "nat option" bool | WordB | Bol | Eol

definition One :: "(nat \<Rightarrow> bool) \<Rightarrow> rx" where
  "One cls = Rep cls 1 (Some 1) True"

definition Lit :: "nat \<Rightarrow> rx" where
  "Lit c = One (\<lambda>x. x = c)"

definition Lits :: "string \<Rightarrow> rx list" where
  "Lits s = map (\<lambda>c. Lit (of_char c)) s"

fun first_some :: "'a option list \<Rightarrow> 'a option" where
  "first_some [] = None"
| "first_some (None # xs) = first_some xs"
| "first_some (Some x # xs) = Some x"

definition is_word_at :: "jsstring \<Rightarrow> int \<Rightarrow> bool" where
  "is_word_at s i \<longleftrightarrow> 0 \<le> i \<and> i < int (length s) \<and> is_word (s ! nat i)"

fun rx_match :: "rx list \<Rightarrow> jsstring \<Rightarrow> nat \<Rightarrow> nat list option" where
  "rx_match [] s i = Some []"
| "rx_match (Rep cls mn mx greedy # r) s i =
     (let avail = length (takeWhile cls (drop i s));
          n = (case mx of None \<Rightarrow> avail | Some m \<Rightarrow> min m avail);
          counts = (if greedy then rev [mn..<Suc n] else [mn..<Suc n])
      in first_some (map (\<lambda>k. map_option (Cons (i + k)) (rx_match r s (i + k))) counts))"
| "rx_match (WordB # r) s i =
     (if is_word_at s (int i - 1) \<noteq> is_word_at s (int i)
      then map_option (Cons i) (rx_match r s i) else None)"
| "rx_match (Bol # r) s i = (if i = 0 then map_option (Cons i) (rx_match r s i) else None)"
| "rx_match (Eol # r) s i =
     (if i = length s then map_option (Cons i) (rx_match r s i) else None)"

definition match_end :: "nat \<Rightarrow> nat list \<Rightarrow> nat" where
  "match_end i ends = (if ends = [] then i else last ends)"

text \<open>The leftmost match at or after \<open>start\<close>: its start index and the item ends.\<close>

definition rx_search :: "rx list \<Rightarrow> jsstring \<Rightarrow> nat \<Rightarrow> (nat \<times> nat list) option" where
  "rx_search r s start =
     first_some (map (\<lambda>i. map_option (\<lambda>ends. (i, ends)) (rx_match r s i))
                     [start..<Suc (length s)])"

definition rx_test :: "rx list \<Rightarrow> jsstring \<Rightarrow> bool" where
  "rx_test r s \<longleftrightarrow> rx_search r s 0 \<noteq> None"

lemma first_some_SomeD:
  "first_some xs = Some y \<Longrightarrow> Some y \<in> set xs"
  by (induction xs rule: first_some.induct) auto

lemma first_some_map_SomeD:
  "first_some (map f xs) = Some y \<Longrightarrow> \<exists>x\<in>set xs. f x = Some y"
  by (drule first_some_SomeD) auto

lemma rx_match_ends_ge:
  "rx_match r s i = Some ends \<Longrightarrow> e \<in> set ends \<Longrightarrow> i \<le> e"
proof (induction r arbitrary: i ends e)
  case Nil
  then show ?case by simp
next
  case (Cons a r)
  show ?case
  proof (cases a)
    case (Rep cls mn mx greedy)
    from Cons.prems(1) obtain k where
      "map_option (Cons (i + k)) (rx_match r s (i + k)) = Some ends"
      unfolding Rep by (auto simp: Let_def dest!: first_some_map_SomeD)
    then obtain ends' where
      k: "rx_match r s (i + k) = Some ends'" "ends = (i + k) # ends'"
      by auto
    with Cons.prems(2) Cons.IH[OF k(1)] show ?thesis by fastforce
  next
    case WordB
    with Cons.prems Cons.IH show ?thesis by (fastforce split: if_splits)
  next
    case Bol
    with Cons.prems Cons.IH show ?thesis by (fastforce split: if_splits)
  next
    case Eol
    with Cons.prems Cons.IH show ?thesis by (fastforce split: if_splits)
  qed
qed

lemma rx_match_end_ge: "rx_match r s i = Some ends \<Longrightarrow> i \<le> match_end i ends"
  using rx_match_ends_ge[of r s i ends "last ends"] by (auto simp: match_end_def)

lemma rx_search_SomeD:
  "rx_search r s start = Some (i, ends) \<Longrightarrow>
     start \<le> i \<and> i \<le> length s \<and> rx_match r s i = Some ends"
  unfolding rx_search_def by (auto dest!: first_some_map_SomeD)

text \<open>
  The number of matches of a global (\<open>g\<close>) regular expression, as
  \<open>String.prototype.match\<close> collects them: each search starts where the previous match
  ended, one further after an empty match.
\<close>

function rx_count_from :: "rx list \<Rightarrow> jsstring \<Rightarrow> nat \<Rightarrow> nat" where
  "rx_count_from r s lastIndex =
     (if length s < lastIndex then 0
      else case rx_search r s lastIndex of
             None \<Rightarrow> 0
           | Some (i, ends) \<Rightarrow>
               (let e = match_end i ends
                in Suc (rx_count_from r s (if e = i then e + 1 else e))))"
  by pat_completeness auto
termination
proof (relation "measure (\<lambda>(r, s, lastIndex). Suc (length s) - lastIndex)", goal_cases)
  case 1
  show ?case by simp
next
  case (2 r s lastIndex x i ends e)
  then have "lastIndex \<le> i" "i \<le> e" "rx_match r s i = Some ends"
    using rx_search_SomeD[of r s lastIndex i ends] rx_match_end_ge[of r s i ends] by auto
  with 2 show ?case by auto
qed

definition rx_count :: "rx list \<Rightarrow> jsstring \<Rightarrow> nat" where
  "rx_count r s = rx_count_from r s 0"

text \<open>
  \<open>new RegExp(source)\<close> for the sources the program builds: a backslash followed by a
  character, a dot, or a plain character.  \<open>\b\<close> is the word boundary, \<open>\n\<close>, \<open>\r\<close>
  and \<open>\t\<close> are control characters, \<open>\d\<close>, \<open>\s\<close> and \<open>\w\<close> are classes, and any other
  escaped character outside the reserved escape letters stands for itself (an identity
  escape: \<open>\=\<close> is \<open>=\<close> and \<open>\a\<close> is \<open>a\<close>).  A source outside this fragment
  is not translated (\<open>None\<close>).
\<close>

definition rx_escape :: "nat \<Rightarrow> rx option" where
  "rx_escape d =
     (if d = of_char CHR ''b'' then Some WordB
      else if d = of_char CHR ''n'' then Some (Lit 10)
      else if d = of_char CHR ''r'' then Some (Lit 13)
      else if d = of_char CHR ''t'' then Some (Lit 9)
      else if d = of_char CHR ''d'' then Some (One is_digit)
      else if d = of_char CHR ''s'' then Some (One is_js_space)
      else if d = of_char CHR ''w'' then Some (One is_word)
      else if is_digit d \<or> d \<in> of_char ` set ''BDSWcxukfv'' then None
      else Some (Lit d))"

definition rx_plain :: "nat \<Rightarrow> rx option" where
  "rx_plain c =
     (if c = of_char CHR ''.'' then Some (One (\<lambda>x. \<not> is_line_terminator x))
      else if c \<in> of_char ` set ''^$*+?()[]{}|'' then None
      else Some (Lit c))"

fun rx_compile :: "jsstring \<Rightarrow> rx list option" where
  "rx_compile [] = Some []"
| "rx_compile [c] = (if c = 92 then None else map_option (\<lambda>a. [a]) (rx_plain c))"
| "rx_compile (c # d # rest) =
     (if c = 92
      then (case rx_escape d of
              None \<Rightarrow> None
            | Some a \<Rightarrow> map_option (Cons a) (rx_compile rest))
      else (case rx_plain c of
              None \<Rightarrow> None
            | Some a \<Rightarrow> map_option (Cons a) (rx_compile (d # rest))))"

text \<open>\<open>(code.match(new RegExp(source, 'g')) || []).length\<close>\<close>

definition match_count :: "jsstring \<Rightarrow> jsstring \<Rightarrow> nat" where
  "match_count source code =
     (case rx_compile source of None \<Rightarrow> 0 | Some r \<Rightarrow> rx_count r code)"

text \<open>\<open>String.prototype.includes\<close>\<close>

fun str_includes :: "jsstring \<Rightarrow> jsstring \<Rightarrow> bool" where
  "str_includes [] sub \<longleftrightarrow> sub = []"
| "str_includes (c # s) sub \<longleftrightarrow> take (length sub) (c # s) = sub \<or> str_includes s sub"


subsection \<open>The hex and block-cipher paths\<close>

text \<open>
  \<open>parseInt(s, 16)\<close>: leading white space is skipped, then an optional sign and an
  optional \<open>0x\<close> prefix; the value is that of the longest run of hex digits, NaN
  (\<open>None\<close>) when the run is empty.
\<close>

definition hex_value :: "nat \<Rightarrow> nat" where
  "hex_value c = (if is_digit c then c - 48 else if 97 \<le> c then c - 87 else c - 55)"

definition parseInt16 :: "jsstring \<Rightarrow> int option" where
  "parseInt16 s =
     (let s1 = dropWhile is_js_space s;
          negative = (s1 \<noteq> [] \<and> hd s1 = 45);
          s2 = (if s1 \<noteq> [] \<and> (hd s1 = 45 \<or> hd s1 = 43) then tl s1 else s1);
          s3 = (if 2 \<le> length s2 \<and> s2 ! 0 = 48 \<and> (s2 ! 1 = 120 \<or> s2 ! 1 = 88)
                then drop 2 s2 else s2);
          z = takeWhile is_hex_digit s3
      in if z = [] then None
         else (let v = int (foldl (\<lambda>a d. 16 * a + hex_value d) 0 z)
               in Some (if negative then - v else v)))"

text \<open>
  \<open>hexToBytes\<close>: the array has \<open>floor(length / 2)\<close> elements; a trailing odd character
  is written past the end and dropped.  NaN is stored as 0.
\<close>

definition hexToBytes :: "jsstring \<Rightarrow> nat list" where
  "hexToBytes hex =
     map (\<lambda>j. case parseInt16 (take 2 (drop (2 * j) hex)) of
                 None \<Rightarrow> 0
               | Some v \<Rightarrow> toUint8 v)
         [0..<length hex div 2]"

function simpleAES_loop :: "nat list \<Rightarrow> nat list \<Rightarrow> nat list \<Rightarrow> nat list" where
  "simpleAES_loop key16 encrypted previousBlock =
     (if encrypted = [] then []
      else (let block = take 16 encrypted;
                decryptedBlock = xorBytes block key16;
                finalBlock = xorBytes decryptedBlock previousBlock
            in finalBlock @ simpleAES_loop key16 (drop 16 encrypted) block))"
  by pat_completeness auto
termination
  by (relation "measure (\<lambda>(key16, encrypted, previousBlock). length encrypted)") auto

definition simpleAESDecrypt :: "nat list \<Rightarrow> nat list \<Rightarrow> nat list \<Rightarrow> nat list" where
  "simpleAESDecrypt encrypted key iv = simpleAES_loop (take 16 key) encrypted iv"

definition modifyKeyForLuraph :: "nat list \<Rightarrow> nat list" where
  "modifyKeyForLuraph key = map (\<lambda>i. (key ! i + i * 7) AND 255) [0..<length key]"

text \<open>
  \<open>removeLuraphPadding\<close>: \<open>bytes.slice(0, length - paddingLength)\<close>; a negative end
  counts from the end of the array again, and not below 0.
\<close>

definition removeLuraphPadding :: "nat list \<Rightarrow> nat list" where
  "removeLuraphPadding bytes =
     (if bytes = [] then bytes
      else (let paddingLength = last bytes
            in if 0 < paddingLength \<and> paddingLength \<le> 16
               then (let e = int (length bytes) - int paddingLength;
                         e' = (if e < 0 then max (int (length bytes) + e) 0 else e)
                     in take (nat e') bytes)
               else bytes))"

definition luraphAESDecrypt :: "nat list \<Rightarrow> nat list \<Rightarrow> nat list \<Rightarrow> nat list" where
  "luraphAESDecrypt encrypted key iv =
     removeLuraphPadding (simpleAESDecrypt encrypted (modifyKeyForLuraph key) iv)"

text \<open>\<open>generateIV\<close>: \<open>key.charCodeAt(i % key.length) ^ i\<close>; NaN for an empty key, and \<open>NaN ^ i = i\<close>.\<close>

definition generateIV :: "jsstring \<Rightarrow> nat list" where
  "generateIV key =
     map (\<lambda>i. (case at_mod key i of None \<Rightarrow> i | Some c \<Rightarrow> c XOR i) mod 256) [0..<16]"

text \<open>\<open>iv ? hexToBytes(iv) : ...\<close>: an absent and an empty \<open>iv\<close> are both falsy.\<close>

definition aesDecrypt :: "jsstring \<Rightarrow> jsstring \<Rightarrow> jsstring option \<Rightarrow> DecryptionResult" where
  "aesDecrypt encrypted key iv =
     (let encryptedBytes = hexToBytes encrypted;
          keyBytes = stringToBytes key;
          ivBytes = (case iv of
                       None \<Rightarrow> replicate 16 0
                     | Some v \<Rightarrow> if v = [] then replicate 16 0 else hexToBytes v);
          d = simpleAESDecrypt encryptedBytes keyBytes ivBytes
      in \<lparr>dr_success = True, dr_decrypted = bytesToString d, dr_method = ''aes_cbc'', dr_error = None\<rparr>)"

definition aesDecryptV2 :: "jsstring \<Rightarrow> jsstring \<Rightarrow> jsstring option \<Rightarrow> DecryptionResult" where
  "aesDecryptV2 encrypted key iv =
     (let encryptedBytes = hexToBytes encrypted;
          keyBytes = stringToBytes key;
          ivBytes = (case iv of
                       None \<Rightarrow> generateIV key
                     | Some v \<Rightarrow> if v = [] then generateIV key else hexToBytes v);
          d = luraphAESDecrypt encryptedBytes keyBytes ivBytes
      in \<lparr>dr_success = True, dr_decrypted = bytesToString d, dr_method = ''aes_cbc_v2'', dr_error = None\<rparr>)"

subsection \<open>Scoring and automatic detection\<close>

definition luaKeywords :: "string list" where
  "luaKeywords = [''local'', ''function'', ''end'', ''if'', ''then'', ''else'', ''for'',
                  ''while'', ''do'', ''return'']"

definition luaOperators :: "string list" where
  "luaOperators = [''='', ''=='', ''~='', ''<='', ''>='', ''<'', ''>'', ''+'', ''-'', ''*'',
                   ''/'', ''%'', ''^'', ''..'', ''and'', ''or'', ''not'']"

definition is_nonprintable :: "nat \<Rightarrow> bool" where
  "is_nonprintable c \<longleftrightarrow> c \<le> 8 \<or> c = 11 \<or> c = 12 \<or> (14 \<le> c \<and> c \<le> 31) \<or> c = 127"

text \<open>
  \<open>scoreLuaCode\<close>.  The two \<open>forEach\<close> loops add to \<open>score\<close>; the keyword pattern is
  the source \<open>\bkeyword\b\<close>, the operator pattern is a backslash followed by the
  operator text (92 is the backslash).
\<close>

definition scoreLuaCode :: "jsstring \<Rightarrow> int" where
  "scoreLuaCode code =
     (let score1 = foldl (\<lambda>score keyword.
                       score + int (match_count ([92, 98] @ units keyword @ [92, 98]) code) * 10)
                     0 luaKeywords;
          score2 = foldl (\<lambda>score op.
                       score + int (match_count (92 # units op) code) * 2)
                     score1 luaOperators;
          score3 = (if str_includes code (units ''function'') \<and> str_includes code (units ''end'')
                    then score2 + 20 else score2);
          score4 = (if str_includes code (units ''local'') then score3 + 15 else score3);
          score5 = (if str_includes code (units ''print'') then score4 + 10 else score4);
          nonPrintable = rx_count [One is_nonprintable] code
      in score5 - int nonPrintable * 5)"

fun selectBest_loop :: "DecryptionResult \<Rightarrow> int \<Rightarrow> DecryptionResult list \<Rightarrow> DecryptionResult" where
  "selectBest_loop bestResult bestScore [] = bestResult"
| "selectBest_loop bestResult bestScore (r # rest) =
     (let score = scoreLuaCode (dr_decrypted r)
      in if score > bestScore then selectBest_loop r score rest
         else selectBest_loop bestResult bestScore rest)"

definition selectBestResult :: "DecryptionResult list \<Rightarrow> DecryptionResult option" where
  "selectBestResult results =
     (case results of
        [] \<Rightarrow> None
      | r # rest \<Rightarrow> Some (selectBest_loop r (scoreLuaCode (dr_decrypted r)) rest))"

text \<open>
  \<open>decryptString\<close> dispatches on the method name; any other name, \<open>auto\<close> included,
  goes to \<open>autoDetectAndDecrypt\<close>, which calls \<open>decryptString\<close> again once for each
  name of its own list.  None of the modelled operations throws, so the \<open>catch\<close>
  branches of the source are not reached.
\<close>

definition knownMethods :: "string set" where
  "knownMethods = {''xor_v1'', ''xor_v2'', ''aes_cbc'', ''aes_cbc_v2'', ''luraph_custom''}"

function decryptString :: "jsstring \<Rightarrow> EncryptionInfo \<Rightarrow> DecryptionResult"
  and autoDetectAndDecrypt :: "jsstring \<Rightarrow> jsstring \<Rightarrow> DecryptionResult" where
  "decryptString encrypted encryptionInfo =
     (if ei_method encryptionInfo = ''xor_v1''
        then xorDecryptV1 encrypted (ei_key encryptionInfo)
      else if ei_method encryptionInfo = ''xor_v2''
        then xorDecryptV2 encrypted (ei_key encryptionInfo)
      else if ei_method encryptionInfo = ''aes_cbc''
        then aesDecrypt encrypted (ei_key encryptionInfo) (ei_iv encryptionInfo)
      else if ei_method encryptionInfo = ''aes_cbc_v2''
        then aesDecryptV2 encrypted (ei_key encryptionInfo) (ei_iv encryptionInfo)
      else if ei_method encryptionInfo = ''luraph_custom''
        then luraphCustomDecrypt encrypted (ei_key encryptionInfo)
      else autoDetectAndDecrypt encrypted (ei_key encryptionInfo))"
| "autoDetectAndDecrypt encrypted key =
     (let methods = [''xor_v1'', ''xor_v2'', ''aes_cbc'', ''luraph_custom''];
          results = filter dr_success
            (map (\<lambda>m. decryptString encrypted
                         \<lparr>ei_method = m, ei_key = key, ei_iv = None,
                          ei_algorithm = m, ei_version = ''auto''\<rparr>)
                 methods)
      in case selectBestResult results of
           Some bestResult \<Rightarrow> bestResult
         | None \<Rightarrow> \<lparr>dr_success = False, dr_decrypted = encrypted, dr_method = ''auto'',
                     dr_error = Some ''No valid decryption method found''\<rparr>)"
  by pat_completeness auto
termination
  by (relation "measure (\<lambda>x. case x of
                   Inl (encrypted, info) \<Rightarrow> if ei_method info \<in> knownMethods then 0 else 2
                 | Inr (encrypted, key) \<Rightarrow> 1)")
     (auto simp: knownMethods_def)

declare decryptString.simps [simp del] autoDetectAndDecrypt.simps [simp del]

subsection \<open>Decryption inverts the reference encryption\<close>

text \<open>
  The reference encryption follows the specification's description of the three
  byte-wise algorithms, inverted: \<open>xor_v1\<close> XORs with \<open>key[i mod |key|]\<close>,
  \<open>xor_v2\<close> XORs with \<open>(key[i mod |key|] + i) mod 256\<close>, and \<open>luraph_custom\<close>
  undoes the three decryption layers in reverse order: add the key byte modulo 256,
  rotate right by 3, XOR with the key byte.  Key bytes are the key's code units modulo 256.
\<close>

definition key_byte :: "jsstring \<Rightarrow> nat \<Rightarrow> nat" where
  "key_byte key i = (key ! (i mod length key)) mod 256"

definition rotate_right3 :: "nat \<Rightarrow> nat" where
  "rotate_right3 b = (drop_bit 3 b OR push_bit 5 b) AND 255"

definition encrypt_xor_v1 :: "jsstring \<Rightarrow> jsstring \<Rightarrow> jsstring" where
  "encrypt_xor_v1 plain key = map (\<lambda>i. (plain ! i) XOR key_byte key i) [0..<length plain]"

definition encrypt_xor_v2 :: "jsstring \<Rightarrow> jsstring \<Rightarrow> jsstring" where
  "encrypt_xor_v2 plain key =
     map (\<lambda>i. (plain ! i) XOR ((key_byte key i + i) mod 256)) [0..<length plain]"

definition encrypt_luraph_custom :: "jsstring \<Rightarrow> jsstring \<Rightarrow> jsstring" where
  "encrypt_luraph_custom plain key =
     map (\<lambda>i. rotate_right3 ((plain ! i + key_byte key i) mod 256) XOR key_byte key i)
         [0..<length plain]"

definition reference_encrypt :: "string \<Rightarrow> jsstring \<Rightarrow> jsstring \<Rightarrow> jsstring" where
  "reference_encrypt m plain key =
     (if m = ''xor_v1'' then encrypt_xor_v1 plain key
      else if m = ''xor_v2'' then encrypt_xor_v2 plain key
      else encrypt_luraph_custom plain key)"

lemma and_255: "x AND 255 = (x::nat) mod 256"
proof -
  have "x AND 255 = x AND mask 8" by (simp add: mask_eq_exp_minus_1)
  also have "\<dots> = take_bit 8 x" by (simp add: take_bit_eq_mask)
  also have "\<dots> = x mod 2 ^ 8" by (simp only: take_bit_eq_mod)
  finally show ?thesis by simp
qed

lemma bit_high: "b < 256 \<Longrightarrow> 8 \<le> n \<Longrightarrow> bit (b::nat) n = False"
proof -
  assume a: "b < 256" "8 \<le> n"
  have "b < 2 ^ 8" using a by simp
  also have "(2::nat) ^ 8 \<le> 2 ^ n" using a by (intro power_increasing) auto
  finally show ?thesis by (simp add: bit_iff_odd)
qed

lemma bit_rotate_right3:
  "bit (rotate_right3 b) m = (m < 8 \<and> (bit b (m + 3) \<or> (5 \<le> m \<and> bit b (m - 5))))"
  unfolding rotate_right3_def and_255 take_bit_eq_mod[of 8, simplified, symmetric]
  by (auto simp add: bit_simps add.commute)

lemma bit_rotate_left3:
  "bit ((push_bit 3 b OR drop_bit 5 b) AND 255) m =
     (m < 8 \<and> ((3 \<le> m \<and> bit (b::nat) (m - 3)) \<or> bit b (m + 5)))"
  unfolding and_255 take_bit_eq_mod[of 8, simplified, symmetric]
  by (auto simp add: bit_simps add.commute)

lemma rotate_left3_right3:
  assumes "b < 256"
  shows "(push_bit 3 (rotate_right3 b) OR drop_bit 5 (rotate_right3 b)) AND 255 = b"
proof (rule bit_eqI)
  fix n :: nat
  consider "8 \<le> n" | "3 \<le> n" "n < 8" | "n < 3" by linarith
  then show "bit ((push_bit 3 (rotate_right3 b) OR drop_bit 5 (rotate_right3 b)) AND 255) n
               = bit b n"
  proof cases
    case 1
    then show ?thesis using bit_high[OF assms 1] by (simp add: bit_rotate_left3)
  next
    case 2
    define m where "m = n - 3"
    have m: "n = m + 3" "m < 5" using 2 unfolding m_def by arith+
    show ?thesis unfolding m(1) using m(2) by (simp add: bit_rotate_left3 bit_rotate_right3)
  next
    case 3
    have "bit b (n + 8) = False" by (rule bit_high[OF assms]) simp
    then show ?thesis using 3 by (simp add: bit_rotate_left3 bit_rotate_right3 add.commute)
  qed
qed

lemma xor_lt_256: "a < 256 \<Longrightarrow> b < 256 \<Longrightarrow> a XOR b < (256::nat)"
proof -
  assume "a < 256" "b < 256"
  then have "take_bit 8 a = a" "take_bit 8 b = b" by (simp_all add: take_bit_nat_eq_self_iff)
  then have "a XOR b = take_bit 8 (a XOR b)" by (simp add: take_bit_xor)
  moreover have "take_bit 8 (a XOR b) < 2 ^ 8" by (rule take_bit_nat_less_exp)
  ultimately show ?thesis by simp
qed

lemma rotate_right3_lt: "rotate_right3 b < 256"
  by (simp add: rotate_right3_def and_255)

lemma xor_cancel: "(a XOR k) XOR k = (a::nat)"
  by (simp add: xor.assoc)

lemma key_byte_at_mod:
  "key \<noteq> [] \<Longrightarrow> at_mod (stringToBytes key) i = Some (key_byte key i)"
  by (simp add: at_mod_def stringToBytes_def key_byte_def)

lemma key_byte_lt: "key_byte key i < 256"
  by (simp add: key_byte_def)

lemma xorDecryptV1_inverse:
  assumes "\<forall>c\<in>set plain. c < 256" "key \<noteq> []"
  shows "dr_decrypted (xorDecryptV1 (encrypt_xor_v1 plain key) key) = plain"
proof -
  have "\<And>i. i < length plain \<Longrightarrow> fromCharCode (plain ! i) = plain ! i"
    using assms(1) nth_mem by (fastforce simp: fromCharCode_def)
  then show ?thesis
    using assms(2)
    by (auto simp: xorDecryptV1_def encrypt_xor_v1_def key_byte_at_mod xor_undef_def
        xor_cancel intro!: nth_equalityI)
qed

lemma xorV2_loop_eq:
  "kb \<noteq> [] \<Longrightarrow>
   xorV2_loop kb xs i (Some (i mod length kb)) =
     map (\<lambda>j. fromCharCode (xs ! j XOR ((kb ! ((i + j) mod length kb) + (i + j)) mod 256)))
         [0..<length xs]"
proof (induction xs arbitrary: i)
  case Nil
  then show ?case by simp
next
  case (Cons x xs)
  have step: "(i mod length kb + 1) mod length kb = (i + 1) mod length kb"
    by (simp add: mod_Suc_eq)
  have "xorV2_loop kb xs (i + 1) (Some ((i + 1) mod length kb)) =
     map (\<lambda>j. fromCharCode (xs ! j XOR ((kb ! ((i + 1 + j) mod length kb) + (i + 1 + j)) mod 256)))
         [0..<length xs]"
    using Cons.IH[OF Cons.prems, of "i + 1"] by simp
  then show ?case
    using Cons.prems step
    by (simp add: Let_def and_255 map_upt_Suc del: upt_Suc)
qed

lemma xorDecryptV2_inverse:
  assumes "\<forall>c\<in>set plain. c < 256" "key \<noteq> []"
  shows "dr_decrypted (xorDecryptV2 (encrypt_xor_v2 plain key) key) = plain"
proof -
  have kb: "stringToBytes key \<noteq> []" "length (stringToBytes key) = length key"
    using assms(2) by (simp_all add: stringToBytes_def)
  have "\<And>i. i < length plain \<Longrightarrow> fromCharCode (plain ! i) = plain ! i"
    using assms(1) nth_mem by (fastforce simp: fromCharCode_def)
  then show ?thesis
    using xorV2_loop_eq[OF kb(1), of "encrypt_xor_v2 plain key" 0] kb(2) assms(2)
    by (auto simp: xorDecryptV2_def encrypt_xor_v2_def key_byte_def stringToBytes_def
        xor_cancel intro!: nth_equalityI)
qed

lemma sub_mod_256: "p < 256 \<Longrightarrow> toUint8 (int ((p + k) mod 256) - int k) = p"
proof -
  assume "p < 256"
  have "(int ((p + k) mod 256) - int k) mod 256 = (int (p + k) - int k) mod 256"
    by (simp add: zmod_int mod_diff_left_eq)
  also have "\<dots> = int p mod 256" by simp
  finally show ?thesis using \<open>p < 256\<close> by (simp add: toUint8_def)
qed

lemma length_xorBytes [simp]: "length (xorBytes a b) = length a"
  by (simp add: xorBytes_def)

lemma length_reverseBitManipulation [simp]: "length (reverseBitManipulation a) = length a"
  by (simp add: reverseBitManipulation_def)

lemma length_customSubstitution [simp]: "length (customSubstitution a k) = length a"
  by (simp add: customSubstitution_def)

lemma length_encrypt_luraph_custom [simp]:
  "length (encrypt_luraph_custom plain key) = length plain"
  by (simp add: encrypt_luraph_custom_def)

lemma luraphCustomDecrypt_inverse:
  assumes "\<forall>c\<in>set plain. c < 256" "key \<noteq> []"
  shows "dr_decrypted (luraphCustomDecrypt (encrypt_luraph_custom plain key) key) = plain"
proof (rule nth_equalityI)
  let ?enc = "encrypt_luraph_custom plain key"
  let ?kb = "stringToBytes key"
  let ?r1 = "xorBytes (stringToBytes ?enc) ?kb"
  let ?r2 = "reverseBitManipulation ?r1"
  let ?r3 = "customSubstitution ?r2 ?kb"
  have d: "dr_decrypted (luraphCustomDecrypt ?enc key) = bytesToString ?r3"
    by (simp add: luraphCustomDecrypt_def Let_def)
  show len: "length (dr_decrypted (luraphCustomDecrypt ?enc key)) = length plain"
    unfolding d by (simp add: bytesToString_def stringToBytes_def)
  fix i assume "i < length (dr_decrypted (luraphCustomDecrypt ?enc key))"
  then have i: "i < length plain" using len by simp
  then have p: "plain ! i < 256" using assms(1) nth_mem by fastforce
  let ?k = "key_byte key i"
  let ?s = "(plain ! i + ?k) mod 256"
  let ?c = "rotate_right3 ?s XOR ?k"
  have c: "?c < 256" by (intro xor_lt_256 rotate_right3_lt key_byte_lt)
  have e: "stringToBytes ?enc ! i = ?c"
    using i c by (simp add: stringToBytes_def encrypt_luraph_custom_def)
  have r1: "?r1 ! i = rotate_right3 ?s"
    using i e assms(2) rotate_right3_lt[of ?s]
    by (simp add: xorBytes_def stringToBytes_def[of ?enc] key_byte_at_mod xor_undef_def xor_cancel)
  have r2: "?r2 ! i = ?s"
    using i r1 rotate_left3_right3[of ?s]
    by (simp add: reverseBitManipulation_def stringToBytes_def[of ?enc])
  have r3: "?r3 ! i = plain ! i"
    using i r2 p assms(2)
    by (simp add: customSubstitution_def stringToBytes_def[of ?enc] key_byte_at_mod sub_mod_256)
  show "dr_decrypted (luraphCustomDecrypt ?enc key) ! i = plain ! i"
    unfolding d using i r3 p
    by (simp add: bytesToString_def stringToBytes_def[of ?enc] fromCharCode_def)
qed

text \<open>
  Claim C4.  For every plaintext whose character codes are all below 256, every
  non-empty key and every method among \<open>xor_v1\<close>, \<open>xor_v2\<close> and \<open>luraph_custom\<close>,
  \<open>decryptString\<close> applied to the reference encryption of the plaintext, with the same
  key and method, succeeds and returns the plaintext.
\<close>

theorem decrypt_inverts_reference_encrypt:
  assumes "\<forall>c\<in>set plain. c < 256" and "key \<noteq> []"
    and "m \<in> {''xor_v1'', ''xor_v2'', ''luraph_custom''}"
  shows "decryptString (reference_encrypt m plain key)
           \<lparr>ei_method = m, ei_key = key, ei_iv = iv, ei_algorithm = a, ei_version = v\<rparr>
         = \<lparr>dr_success = True, dr_decrypted = plain, dr_method = m, dr_error = None\<rparr>"
proof -
  consider "m = ''xor_v1''" | "m = ''xor_v2''" | "m = ''luraph_custom''"
    using assms(3) by auto
  then show ?thesis
  proof cases
    case 1
    then show ?thesis
      using xorDecryptV1_inverse[OF assms(1,2)]
      by (simp add: decryptString.simps reference_encrypt_def xorDecryptV1_def Let_def)
  next
    case 2
    then show ?thesis
      using xorDecryptV2_inverse[OF assms(1,2)]
      by (simp add: decryptString.simps reference_encrypt_def xorDecryptV2_def)
  next
    case 3
    then show ?thesis
      using luraphCustomDecrypt_inverse[OF assms(1,2)]
      by (simp add: decryptString.simps reference_encrypt_def luraphCustomDecrypt_def Let_def)
  qed
qed



theorem decrypt_inverts_reference_encrypt_witness:
  "reference_encrypt ''luraph_custom'' (units ''hi'') (units ''k'') = [17, 241]
   \<and> decryptString [17, 241]
        \<lparr>ei_method = ''luraph_custom'', ei_key = units ''k'', ei_iv = None,
         ei_algorithm = ''luraph_custom'', ei_version = ''11.8.1''\<rparr>
      = \<lparr>dr_success = True, dr_decrypted = units ''hi'', dr_method = ''luraph_custom'', dr_error = None\<rparr>"
proof -
  have e: "reference_encrypt ''luraph_custom'' (units ''hi'') (units ''k'') = [17, 241]"
    by (simp add: reference_encrypt_def encrypt_luraph_custom_def key_byte_def
        rotate_right3_def units_def upt_rec)
  have h: "\<forall>c\<in>set (units ''hi''). c < 256" "units ''k'' \<noteq> []"
    by (simp_all add: units_def)
  show ?thesis
    using decrypt_inverts_reference_encrypt[OF h, of "''luraph_custom''"
        None "''luraph_custom''" "''11.8.1''"]
    unfolding e by simp
qed


section \<open>What the scoring function counts\<close>

declare rx_count_from.simps [simp del]

lemma first_some_single [simp]: "first_some [x] = x"
  by (cases x) simp_all

lemma takeWhile_nonempty: "takeWhile P xs \<noteq> [] \<longleftrightarrow> xs \<noteq> [] \<and> P (hd xs)"
  by (cases xs) auto

lemma takeWhile_drop_nonempty:
  "takeWhile cls (drop i s) \<noteq> [] \<longleftrightarrow> i < length s \<and> cls (s ! i)"
  by (auto simp: takeWhile_nonempty hd_drop_conv_nth)

lemma upt_split: "a \<le> b \<Longrightarrow> b \<le> c \<Longrightarrow> [a..<c] = [a..<b] @ [b..<c]"
  using upt_add_eq_append[of a b "c - b"] by simp

lemma rx_match_One:
  "rx_match (One cls # r) s i =
     (if i < length s \<and> cls (s ! i) then map_option (Cons (Suc i)) (rx_match r s (Suc i))
      else None)"
proof (cases "i < length s \<and> cls (s ! i)")
  case True
  then have "takeWhile cls (drop i s) \<noteq> []" by (simp add: takeWhile_drop_nonempty)
  then obtain x xs where "takeWhile cls (drop i s) = x # xs"
    by (cases "takeWhile cls (drop i s)") simp_all
  then show ?thesis using True by (simp add: One_def Let_def)
next
  case False
  then have "takeWhile cls (drop i s) = []"
    using takeWhile_drop_nonempty[of cls i s] by blast
  then show ?thesis using False by (auto simp add: One_def Let_def)
qed

lemma rx_match_Lit:
  "rx_match (Lit c # r) s i =
     (if i < length s \<and> s ! i = c then map_option (Cons (Suc i)) (rx_match r s (Suc i))
      else None)"
  by (simp add: Lit_def rx_match_One)

lemma rx_search_skip:
  "rx_match r s i = None \<Longrightarrow> i \<le> length s \<Longrightarrow> rx_search r s i = rx_search r s (Suc i)"
  by (simp add: rx_search_def upt_conv_Cons del: upt_Suc)

lemma rx_search_hit:
  "rx_match r s i = Some ends \<Longrightarrow> i \<le> length s \<Longrightarrow> rx_search r s i = Some (i, ends)"
  by (simp add: rx_search_def upt_conv_Cons del: upt_Suc)

lemma rx_search_beyond: "length s < i \<Longrightarrow> rx_search r s i = None"
  by (simp add: rx_search_def)

lemma rx_count_from_beyond [simp]: "length s < i \<Longrightarrow> rx_count_from r s i = 0"
  by (simp add: rx_count_from.simps)

lemma rx_count_from_skip:
  assumes "rx_match r s i = None" "i \<le> length s"
  shows "rx_count_from r s i = rx_count_from r s (Suc i)"
proof (cases "i = length s")
  case True
  then have "rx_search r s i = None"
    using rx_search_skip[OF assms] by (simp add: rx_search_beyond)
  then show ?thesis using True by (simp add: rx_count_from.simps)
next
  case False
  then have "Suc i \<le> length s" using assms(2) by simp
  then show ?thesis
    using rx_search_skip[OF assms]
    by (subst rx_count_from.simps, subst (2) rx_count_from.simps) simp
qed

lemma rx_count_from_hit:
  assumes "rx_match r s i = Some ends" "i \<le> length s" "match_end i ends = i + n" "0 < n"
  shows "rx_count_from r s i = Suc (rx_count_from r s (i + n))"
  using assms rx_search_hit[OF assms(1,2)]
  by (subst rx_count_from.simps) (simp add: Let_def)

subsection \<open>Counting matches of a fixed-width expression\<close>

lemma rx_count_positions:
  assumes width: "\<And>j ends. rx_match r s j = Some ends \<Longrightarrow> match_end j ends = j + n"
    and n: "0 < n"
    and apart: "\<And>j k. rx_match r s j \<noteq> None \<Longrightarrow> j < k \<Longrightarrow> k < j + n \<Longrightarrow> rx_match r s k = None"
  shows "rx_count_from r s i = length (filter (\<lambda>j. rx_match r s j \<noteq> None) [i..<Suc (length s)])"
proof (induction "Suc (length s) - i" arbitrary: i rule: less_induct)
  case less
  show ?case
  proof (cases "length s < i")
    case True
    then show ?thesis by simp
  next
    case False
    then have i: "i \<le> length s" by simp
    then have split: "[i..<Suc (length s)] = i # [Suc i..<Suc (length s)]"
      by (simp add: upt_conv_Cons del: upt_Suc)
    show ?thesis
    proof (cases "rx_match r s i")
      case None
      have "rx_count_from r s i = rx_count_from r s (Suc i)"
        by (rule rx_count_from_skip[OF None i])
      also have "\<dots> = length (filter (\<lambda>j. rx_match r s j \<noteq> None) [Suc i..<Suc (length s)])"
        using i by (intro less) simp
      finally show ?thesis unfolding split using None by simp
    next
      case (Some ends)
      have c: "rx_count_from r s i = Suc (rx_count_from r s (i + n))"
        by (rule rx_count_from_hit[OF Some i width[OF Some] n])
      have ih: "rx_count_from r s (i + n) =
          length (filter (\<lambda>j. rx_match r s j \<noteq> None) [i + n..<Suc (length s)])"
        using i n by (intro less) simp
      have none: "filter (\<lambda>j. rx_match r s j \<noteq> None) [Suc i..<min (i + n) (Suc (length s))] = []"
        using apart[of i] Some by (auto simp: filter_empty_conv)
      have "[Suc i..<Suc (length s)] =
          [Suc i..<min (i + n) (Suc (length s))] @ [min (i + n) (Suc (length s))..<Suc (length s)]"
        using n i by (intro upt_split) auto
      moreover have "filter (\<lambda>j. rx_match r s j \<noteq> None) [min (i + n) (Suc (length s))..<Suc (length s)]
          = filter (\<lambda>j. rx_match r s j \<noteq> None) [i + n..<Suc (length s)]"
        by (cases "i + n \<le> Suc (length s)") (simp_all add: min_def)
      ultimately have "filter (\<lambda>j. rx_match r s j \<noteq> None) [Suc i..<Suc (length s)]
          = filter (\<lambda>j. rx_match r s j \<noteq> None) [i + n..<Suc (length s)]"
        using none by (metis append_Nil filter_append)
      then show ?thesis unfolding split c ih using Some by simp
    qed
  qed
qed

subsection \<open>Direct descriptions of the counts\<close>

text \<open>
  \<open>occurs_at p s i\<close>: the text \<open>p\<close> stands in \<open>s\<close> at index \<open>i\<close>.
  \<open>whole_word_at\<close>: it stands there as a whole word.  \<open>count_pairs R s\<close>: the number
  of pairs of adjacent characters related by \<open>R\<close>, scanned from the left, a counted
  pair being skipped as a whole.
\<close>

definition occurs_at :: "jsstring \<Rightarrow> jsstring \<Rightarrow> nat \<Rightarrow> bool" where
  "occurs_at p s i \<longleftrightarrow> take (length p) (drop i s) = p"

definition whole_word_at :: "jsstring \<Rightarrow> jsstring \<Rightarrow> nat \<Rightarrow> bool" where
  "whole_word_at p s i \<longleftrightarrow>
     occurs_at p s i \<and> \<not> is_word_at s (int i - 1) \<and> \<not> is_word_at s (int (i + length p))"

fun count_pairs :: "(nat \<Rightarrow> nat \<Rightarrow> bool) \<Rightarrow> nat list \<Rightarrow> nat" where
  "count_pairs R (a # b # s) =
     (if R a b then Suc (count_pairs R s) else count_pairs R (b # s))"
| "count_pairs R [a] = 0"
| "count_pairs R [] = 0"

lemma match_end_Cons [simp]: "match_end i (e # ends) = match_end e ends"
  by (simp add: match_end_def)

lemma match_end_Nil [simp]: "match_end i [] = i"
  by (simp add: match_end_def)

lemma occurs_at_Nil [simp]: "occurs_at [] s i"
  by (simp add: occurs_at_def)

lemma occurs_at_Cons:
  "occurs_at (c # p) s i \<longleftrightarrow> i < length s \<and> s ! i = c \<and> occurs_at p s (Suc i)"
proof (cases "i < length s")
  case True
  then have "drop i s = s ! i # drop (Suc i) s" by (simp add: Cons_nth_drop_Suc)
  then show ?thesis using True unfolding occurs_at_def by (simp del: Cons_nth_drop_Suc)
next
  case False
  then show ?thesis by (simp add: occurs_at_def)
qed

lemma occurs_at_nth:
  "occurs_at p s i \<Longrightarrow> m < length p \<Longrightarrow> i + m < length s \<and> s ! (i + m) = p ! m"
proof (induction p arbitrary: i m)
  case Nil
  then show ?case by simp
next
  case (Cons c p)
  then have h: "i < length s" "s ! i = c" "occurs_at p s (Suc i)"
    by (simp_all add: occurs_at_Cons)
  show ?case
  proof (cases m)
    case 0
    then show ?thesis using h by simp
  next
    case (Suc m')
    then show ?thesis using Cons.IH[OF h(3), of m'] Cons.prems(2) by simp
  qed
qed

lemma rx_match_Lits_iff:
  "rx_match (map Lit p @ r) s i \<noteq> None \<longleftrightarrow>
     occurs_at p s i \<and> rx_match r s (i + length p) \<noteq> None"
  by (induction p arbitrary: i) (auto simp: rx_match_Lit occurs_at_Cons)

lemma rx_match_Lits_end:
  "rx_match (map Lit p @ r) s i = Some ends \<Longrightarrow>
     \<exists>ends'. rx_match r s (i + length p) = Some ends' \<and>
             match_end i ends = match_end (i + length p) ends'"
proof (induction p arbitrary: i ends)
  case Nil
  then show ?case by simp
next
  case (Cons c p)
  from Cons.prems obtain e where e: "rx_match (map Lit p @ r) s (Suc i) = Some e" "ends = Suc i # e"
    by (auto simp: rx_match_Lit split: if_splits)
  from Cons.IH[OF e(1)] show ?case using e(2) by simp
qed

subsubsection \<open>A single character class\<close>

lemma length_filter_nth:
  "length (filter (\<lambda>j. P (s ! j)) [0..<length s]) = length (filter P s)"
proof -
  have "filter P s = filter P (map ((!) s) [0..<length s])" by (simp add: map_nth)
  also have "\<dots> = map ((!) s) (filter (P \<circ> (!) s) [0..<length s])" by (simp add: filter_map)
  finally show ?thesis by (simp add: comp_def)
qed

lemma rx_count_class: "rx_count [One cls] s = length (filter cls s)"
proof -
  have m: "\<And>j. rx_match [One cls] s j = (if j < length s \<and> cls (s ! j) then Some [Suc j] else None)"
    by (simp add: rx_match_One)
  have "rx_count_from [One cls] s 0 =
      length (filter (\<lambda>j. rx_match [One cls] s j \<noteq> None) [0..<Suc (length s)])"
    by (rule rx_count_positions[where n = 1]) (auto simp: m split: if_splits)
  also have "\<dots> = length (filter (\<lambda>j. cls (s ! j)) [0..<length s])"
    by (simp add: m) (intro arg_cong[where f = length] filter_cong, auto)
  finally show ?thesis by (simp add: rx_count_def length_filter_nth)
qed

subsubsection \<open>A literal text that cannot overlap itself\<close>

lemma rx_count_literal:
  assumes "p \<noteq> []" "hd p \<notin> set (tl p)"
  shows "rx_count (map Lit p) s = length (filter (occurs_at p s) [0..<length s])"
proof -
  have m: "\<And>j. rx_match (map Lit p) s j \<noteq> None \<longleftrightarrow> occurs_at p s j"
    using rx_match_Lits_iff[of p "[]" s] by simp
  have w: "\<And>j ends. rx_match (map Lit p) s j = Some ends \<Longrightarrow> match_end j ends = j + length p"
    using rx_match_Lits_end[of p "[]" s] by fastforce
  have apart: "rx_match (map Lit p) s k = None"
    if h: "rx_match (map Lit p) s j \<noteq> None" "j < k" "k < j + length p" for j k
  proof (rule ccontr)
    assume "rx_match (map Lit p) s k \<noteq> None"
    then have k: "occurs_at p s k" using m by blast
    have j: "occurs_at p s j" using h(1) m by blast
    have "s ! k = hd p" using occurs_at_nth[OF k, of 0] assms(1) by (simp add: hd_conv_nth)
    moreover have "s ! k = p ! (k - j)" using occurs_at_nth[OF j, of "k - j"] h by simp
    moreover have "p ! (k - j) \<in> set (tl p)"
    proof -
      obtain d where d: "k - j = Suc d" using h(2) by (cases "k - j") simp_all
      then have dl: "d < length (tl p)" using h(3) by simp
      then have "tl p ! d \<in> set (tl p)" by simp
      then show ?thesis using d dl by (simp add: nth_tl)
    qed
    ultimately show False using assms(2) by simp
  qed
  have last: "\<not> occurs_at p s (length s)"
    using occurs_at_nth[of p s "length s" 0] assms(1) by auto
  have "rx_count_from (map Lit p) s 0 =
      length (filter (\<lambda>j. rx_match (map Lit p) s j \<noteq> None) [0..<Suc (length s)])"
    using assms(1) by (intro rx_count_positions[where n = "length p"] w apart) simp_all
  also have "(\<lambda>j. rx_match (map Lit p) s j \<noteq> None) = occurs_at p s"
    by (rule ext) (rule m)
  also have "length (filter (occurs_at p s) [0..<Suc (length s)]) =
      length (filter (occurs_at p s) [0..<length s])"
    using last by simp
  finally show ?thesis by (simp add: rx_count_def)
qed

subsubsection \<open>Two consecutive classes\<close>

lemma rx_match_pair:
  "rx_match [One P, One Q] s i =
     (if Suc i < length s \<and> P (s ! i) \<and> Q (s ! Suc i) then Some [Suc i, Suc (Suc i)] else None)"
  by (auto simp: rx_match_One)

lemma rx_count_pairs_from:
  "i \<le> length s \<Longrightarrow>
   rx_count_from [One P, One Q] s i = count_pairs (\<lambda>a b. P a \<and> Q b) (drop i s)"
proof (induction "length s - i" arbitrary: i rule: less_induct)
  case less
  consider "i = length s" | "Suc i = length s" | "Suc i < length s" using less.prems by linarith
  then show ?case
  proof cases
    case 1
    then have "rx_match [One P, One Q] s i = None" by (simp add: rx_match_pair)
    then have "rx_count_from [One P, One Q] s i = rx_count_from [One P, One Q] s (Suc i)"
      using 1 by (intro rx_count_from_skip) simp_all
    then show ?thesis using 1 by simp
  next
    case 2
    then have n: "rx_match [One P, One Q] s i = None" "rx_match [One P, One Q] s (Suc i) = None"
      by (simp_all add: rx_match_pair)
    have "rx_count_from [One P, One Q] s i = rx_count_from [One P, One Q] s (Suc i)"
      using 2 n(1) by (intro rx_count_from_skip) simp_all
    also have "\<dots> = rx_count_from [One P, One Q] s (Suc (Suc i))"
      using 2 n(2) by (intro rx_count_from_skip) simp_all
    also have "\<dots> = 0" using 2 by simp
    finally show ?thesis
      using 2 Cons_nth_drop_Suc[of i s] by (simp del: Cons_nth_drop_Suc flip: Cons_nth_drop_Suc)
  next
    case 3
    then have d: "drop i s = s ! i # s ! Suc i # drop (Suc (Suc i)) s"
      by (simp add: Cons_nth_drop_Suc Suc_lessD)
    have d1: "drop (Suc i) s = s ! Suc i # drop (Suc (Suc i)) s"
      using 3 by (simp add: Cons_nth_drop_Suc)
    show ?thesis
    proof (cases "P (s ! i) \<and> Q (s ! Suc i)")
      case True
      then have "rx_match [One P, One Q] s i = Some [Suc i, Suc (Suc i)]"
        using 3 by (simp add: rx_match_pair)
      then have "rx_count_from [One P, One Q] s i = Suc (rx_count_from [One P, One Q] s (i + 2))"
        using 3 by (intro rx_count_from_hit[where ends = "[Suc i, Suc (Suc i)]"]) simp_all
      also have "rx_count_from [One P, One Q] s (i + 2) =
          count_pairs (\<lambda>a b. P a \<and> Q b) (drop (i + 2) s)"
        using 3 by (intro less) simp_all
      finally show ?thesis unfolding d using True by simp
    next
      case False
      then have "rx_match [One P, One Q] s i = None" by (simp add: rx_match_pair)
      then have "rx_count_from [One P, One Q] s i = rx_count_from [One P, One Q] s (Suc i)"
        using 3 by (intro rx_count_from_skip) simp_all
      also have "\<dots> = count_pairs (\<lambda>a b. P a \<and> Q b) (drop (Suc i) s)"
        using 3 by (intro less) simp_all
      finally show ?thesis using False
        by (auto simp add: d d1 simp del: Cons_nth_drop_Suc)
    qed
  qed
qed

lemma rx_count_pairs: "rx_count [One P, One Q] s = count_pairs (\<lambda>a b. P a \<and> Q b) s"
  using rx_count_pairs_from[of 0 s P Q] by (simp add: rx_count_def)


subsubsection \<open>A keyword between word boundaries\<close>

lemma occurs_at_is_word:
  assumes "occurs_at kw s i" "\<forall>c\<in>set kw. is_word c" "m < length kw"
  shows "is_word_at s (int (i + m))"
proof -
  have "i + m < length s" "s ! (i + m) = kw ! m" using occurs_at_nth[OF assms(1,3)] by simp_all
  moreover have "is_word (kw ! m)" using assms(2,3) by simp
  moreover have "nat (int (i + m)) = i + m" by simp
  ultimately show ?thesis unfolding is_word_at_def by (simp del: of_nat_add)
qed

lemma rx_match_keyword_iff:
  "rx_match (WordB # map Lit kw @ [WordB]) s i \<noteq> None \<longleftrightarrow>
     is_word_at s (int i - 1) \<noteq> is_word_at s (int i) \<and> occurs_at kw s i \<and>
     is_word_at s (int (i + length kw) - 1) \<noteq> is_word_at s (int (i + length kw))"
  using rx_match_Lits_iff[of kw "[WordB]" s i] by auto

lemma rx_match_keyword_end:
  assumes "rx_match (WordB # map Lit kw @ [WordB]) s i = Some ends"
  shows "match_end i ends = i + length kw"
proof -
  from assms obtain e1 where e1: "rx_match (map Lit kw @ [WordB]) s i = Some e1" "ends = i # e1"
    by (auto split: if_splits)
  from rx_match_Lits_end[OF e1(1)] obtain e2 where
    e2: "rx_match [WordB] s (i + length kw) = Some e2" "match_end i e1 = match_end (i + length kw) e2"
    by blast
  from e2(1) have "e2 = [i + length kw]" by (auto split: if_splits)
  then show ?thesis using e1(2) e2(2) by simp
qed

lemma keyword_match_iff:
  assumes "kw \<noteq> []" "\<forall>c\<in>set kw. is_word c"
  shows "rx_match (WordB # map Lit kw @ [WordB]) s i \<noteq> None \<longleftrightarrow> whole_word_at kw s i"
proof (cases "occurs_at kw s i")
  case True
  have a: "is_word_at s (int i)"
    using occurs_at_is_word[OF True assms(2), of 0] assms(1) by simp
  have "is_word_at s (int (i + (length kw - 1)))"
    using assms(1) by (intro occurs_at_is_word[OF True assms(2)]) simp
  moreover have "int (i + (length kw - 1)) = int (i + length kw) - 1"
    using assms(1) by (cases kw) simp_all
  ultimately have b: "is_word_at s (int (i + length kw) - 1)" by simp
  show ?thesis unfolding rx_match_keyword_iff whole_word_at_def using True a b by simp
next
  case False
  then show ?thesis unfolding rx_match_keyword_iff whole_word_at_def by simp
qed

lemma rx_count_keyword:
  assumes "kw \<noteq> []" "\<forall>c\<in>set kw. is_word c"
  shows "rx_count (WordB # map Lit kw @ [WordB]) s =
           length (filter (whole_word_at kw s) [0..<length s])"
proof -
  let ?r = "WordB # map Lit kw @ [WordB]"
  note m = keyword_match_iff[OF assms]
  have apart: "rx_match ?r s k = None"
    if h: "rx_match ?r s j \<noteq> None" "j < k" "k < j + length kw" for j k
  proof (rule ccontr)
    assume "rx_match ?r s k \<noteq> None"
    then have k: "\<not> is_word_at s (int k - 1)" using m by (simp add: whole_word_at_def)
    have j: "occurs_at kw s j" using h(1) m by (simp add: whole_word_at_def)
    have "is_word_at s (int (j + (k - 1 - j)))"
      using h by (intro occurs_at_is_word[OF j assms(2)]) simp
    moreover have "int (j + (k - 1 - j)) = int k - 1" using h by simp
    ultimately show False using k by simp
  qed
  have last: "\<not> whole_word_at kw s (length s)"
    using occurs_at_nth[of kw s "length s" 0] assms(1) by (auto simp: whole_word_at_def)
  have "rx_count_from ?r s 0 =
      length (filter (\<lambda>j. rx_match ?r s j \<noteq> None) [0..<Suc (length s)])"
    using assms(1)
    by (intro rx_count_positions[where n = "length kw"] rx_match_keyword_end apart) simp_all
  also have "(\<lambda>j. rx_match ?r s j \<noteq> None) = whole_word_at kw s"
    by (rule ext) (rule m)
  also have "length (filter (whole_word_at kw s) [0..<Suc (length s)]) =
      length (filter (whole_word_at kw s) [0..<length s])"
    using last by simp
  finally show ?thesis by (simp add: rx_count_def)
qed

subsubsection \<open>The expressions built by the scoring function\<close>

lemma rx_compile_Cons_plain:
  "c \<noteq> 92 \<Longrightarrow> rx_compile (c # rest) =
     (case rx_plain c of None \<Rightarrow> None | Some a \<Rightarrow> map_option (Cons a) (rx_compile rest))"
  by (cases rest) (auto split: option.splits)

lemma rx_plain_alpha: "is_alpha c \<Longrightarrow> rx_plain c = Some (Lit c)"
  by (auto simp: rx_plain_def is_alpha_def)

lemma rx_compile_alpha:
  "\<forall>c\<in>set p. is_alpha c \<Longrightarrow>
     rx_compile (p @ rest) = map_option ((@) (map Lit p)) (rx_compile rest)"
proof (induction p)
  case Nil
  then show ?case by (simp add: option.map_ident)
next
  case (Cons c p)
  then have "c \<noteq> 92" by (auto simp: is_alpha_def)
  then show ?case using Cons
    by (simp add: rx_compile_Cons_plain rx_plain_alpha option.map_comp comp_def)
qed

lemma rx_compile_keyword:
  assumes "\<forall>c\<in>set kw. is_alpha c"
  shows "rx_compile ([92, 98] @ kw @ [92, 98]) = Some (WordB # map Lit kw @ [WordB])"
proof -
  have e: "rx_escape 98 = Some WordB" by (simp add: rx_escape_def)
  have "rx_compile (kw @ [92, 98]) = Some (map Lit kw @ [WordB])"
    using rx_compile_alpha[OF assms, of "[92, 98]"] e by simp
  then show ?thesis using e by (cases kw) simp_all
qed

lemma match_count_keyword:
  assumes "kw \<noteq> []" "\<forall>c\<in>set kw. is_alpha c"
  shows "match_count ([92, 98] @ kw @ [92, 98]) code =
           length (filter (whole_word_at kw code) [0..<length code])"
proof -
  have "\<forall>c\<in>set kw. is_word c" using assms(2) by (simp add: is_word_def)
  then show ?thesis
    using rx_count_keyword[OF assms(1)] rx_compile_keyword[OF assms(2)]
    by (simp add: match_count_def)
qed


lemma match_count_char:
  assumes "rx_escape c = Some (Lit c)"
  shows "match_count [92, c] code = count_list code c"
proof -
  have "rx_compile [92, c] = Some [Lit c]" using assms by simp
  then have "match_count [92, c] code = length (filter (\<lambda>x. x = c) code)"
    by (simp add: match_count_def Lit_def rx_count_class)
  also have "\<dots> = count_list code c"
    by (induction code) auto
  finally show ?thesis .
qed

lemma match_count_literal:
  assumes "rx_compile src = Some (map Lit p)" "p \<noteq> []" "hd p \<notin> set (tl p)"
  shows "match_count src code = length (filter (occurs_at p code) [0..<length code])"
  using assms by (simp add: match_count_def rx_count_literal)

lemma match_count_pair:
  assumes "rx_compile src = Some [One P, One Q]"
  shows "match_count src code = count_pairs (\<lambda>a b. P a \<and> Q b) code"
  using assms by (simp add: match_count_def rx_count_pairs)

lemmas compile_eval = units_def rx_escape_def rx_plain_def Lit_def is_digit_def

lemma op_counts:
  "match_count (92 # units ''='') code = count_list code (of_char CHR ''='')"
  "match_count (92 # units ''<'') code = count_list code (of_char CHR ''<'')"
  "match_count (92 # units ''>'') code = count_list code (of_char CHR ''>'')"
  "match_count (92 # units ''+'') code = count_list code (of_char CHR ''+'')"
  "match_count (92 # units ''-'') code = count_list code (of_char CHR ''-'')"
  "match_count (92 # units ''*'') code = count_list code (of_char CHR ''*'')"
  "match_count (92 # units ''/'') code = count_list code (of_char CHR ''/'')"
  "match_count (92 # units ''%'') code = count_list code (of_char CHR ''%'')"
  "match_count (92 # units ''^'') code = count_list code (of_char CHR ''^'')"
  unfolding units_def list.map
  by (rule match_count_char, simp add: compile_eval)+

lemma op_counts2:
  "match_count (92 # units ''~='') code = length (filter (occurs_at (units ''~='') code) [0..<length code])"
  "match_count (92 # units ''<='') code = length (filter (occurs_at (units ''<='') code) [0..<length code])"
  "match_count (92 # units ''>='') code = length (filter (occurs_at (units ''>='') code) [0..<length code])"
  "match_count (92 # units ''and'') code = length (filter (occurs_at (units ''and'') code) [0..<length code])"
  "match_count (92 # units ''or'') code = length (filter (occurs_at (units ''or'') code) [0..<length code])"
  "match_count (92 # units ''not'') code = length (filter (occurs_at (10 # units ''ot'') code) [0..<length code])"
  by (rule match_count_literal, simp add: compile_eval, simp add: units_def, simp add: units_def)+

lemma op_counts3:
  "match_count (92 # units ''=='') code = count_pairs (\<lambda>a b. a = 61 \<and> b = 61) code"
  "match_count (92 # units ''..'') code = count_pairs (\<lambda>a b. a = 46 \<and> \<not> is_line_terminator b) code"
  by (rule match_count_pair, simp add: compile_eval)+


lemma foldl_add_sum:
  "foldl (\<lambda>score x. score + g x) a xs = a + sum_list (map g xs)" for a :: int
  by (induction xs arbitrary: a) simp_all

lemma keyword_counts:
  "kw \<in> set luaKeywords \<Longrightarrow>
     match_count ([92, 98] @ units kw @ [92, 98]) code =
       length (filter (whole_word_at (units kw) code) [0..<length code])"
  by (rule match_count_keyword) (auto simp: luaKeywords_def units_def is_alpha_def)

lemma scoreLuaCode_eq:
  "scoreLuaCode code =
     10 * (\<Sum>kw\<leftarrow>luaKeywords.
             int (length (filter (whole_word_at (units kw) code) [0..<length code])))
   + 2 * ((\<Sum>c\<leftarrow>''=<>+-*/%^''. int (count_list code (of_char c)))
          + int (count_pairs (\<lambda>a b. a = 61 \<and> b = 61) code)
          + (\<Sum>p\<leftarrow>[''~='', ''<='', ''>='', ''and'', ''or''].
               int (length (filter (occurs_at (units p) code) [0..<length code])))
          + int (count_pairs (\<lambda>a b. a = 46 \<and> \<not> is_line_terminator b) code)
          + int (length (filter (occurs_at (10 # units ''ot'') code) [0..<length code])))
   + (if str_includes code (units ''function'') \<and> str_includes code (units ''end'')
      then 20 else 0)
   + (if str_includes code (units ''local'') then 15 else 0)
   + (if str_includes code (units ''print'') then 10 else 0)
   - 5 * int (length (filter is_nonprintable code))"
proof -
  have kw: "foldl (\<lambda>score keyword.
                score + int (match_count ([92, 98] @ units keyword @ [92, 98]) code) * 10)
              0 luaKeywords
          = 10 * (\<Sum>kw\<leftarrow>luaKeywords.
             int (length (filter (whole_word_at (units kw) code) [0..<length code])))"
  proof -
    have "map (\<lambda>keyword. int (match_count ([92, 98] @ units keyword @ [92, 98]) code) * 10)
            luaKeywords
        = map (\<lambda>kw. 10 * int (length (filter (whole_word_at (units kw) code) [0..<length code])))
            luaKeywords"
      by (rule map_cong[OF refl]) (simp add: keyword_counts[simplified])
    then show ?thesis
      by (simp only: foldl_add_sum sum_list_const_mult)
  qed
  have op: "foldl (\<lambda>score op. score + int (match_count (92 # units op) code) * 2) a luaOperators
          = a + 2 * ((\<Sum>c\<leftarrow>''=<>+-*/%^''. int (count_list code (of_char c)))
          + int (count_pairs (\<lambda>a b. a = 61 \<and> b = 61) code)
          + (\<Sum>p\<leftarrow>[''~='', ''<='', ''>='', ''and'', ''or''].
               int (length (filter (occurs_at (units p) code) [0..<length code])))
          + int (count_pairs (\<lambda>a b. a = 46 \<and> \<not> is_line_terminator b) code)
          + int (length (filter (occurs_at (10 # units ''ot'') code) [0..<length code])))"
    for a
    unfolding foldl_add_sum luaOperators_def list.map sum_list.Cons sum_list.Nil
      op_counts op_counts2 op_counts3
    by simp
  show ?thesis
    unfolding scoreLuaCode_def Let_def kw op rx_count_class
    by simp
qed


subsection \<open>The scoring formula as the specification words it\<close>







section \<open>Automatic detection at a concrete input\<close>

lemmas eval_defs = units_def stringToBytes_def bytesToString_def fromCharCode_def toUint8_def
  at_mod_def xor_undef_def xorBytes_def Let_def numeral_2_eq_2[symmetric] upt_conv_Cons

lemmas score_eval = luaKeywords_def units_def whole_word_at_def occurs_at_def
  is_nonprintable_def is_word_at_def is_word_def is_alpha_def is_digit_def is_line_terminator_def
  upt_conv_Cons numeral_2_eq_2[symmetric]

definition auto_info :: "string \<Rightarrow> EncryptionInfo" where
  "auto_info m = \<lparr>ei_method = m, ei_key = units ''k'', ei_iv = None,
                  ei_algorithm = m, ei_version = ''auto''\<rparr>"

lemma hex_646e03: "hexToBytes (units ''646e03'') = [100, 110, 3]"
  by (simp add: hexToBytes_def parseInt16_def is_js_space_def is_hex_digit_def is_digit_def
      hex_value_def eval_defs)

lemma auto_v1: "xorDecryptV1 (units ''646e03'') (units ''k'') =
    \<lparr>dr_success = True, dr_decrypted = [93, 95, 93, 14, 91, 88], dr_method = ''xor_v1'', dr_error = None\<rparr>"
  by (simp add: xorDecryptV1_def eval_defs)

lemma auto_v2: "xorDecryptV2 (units ''646e03'') (units ''k'') =
    \<lparr>dr_success = True, dr_decrypted = [93, 88, 91, 11, 95, 67], dr_method = ''xor_v2'', dr_error = None\<rparr>"
  by (simp add: xorDecryptV2_def eval_defs)

lemma auto_aes: "aesDecrypt (units ''646e03'') (units ''k'') None =
    \<lparr>dr_success = True, dr_decrypted = [15, 5, 104], dr_method = ''aes_cbc'', dr_error = None\<rparr>"
  unfolding aesDecrypt_def hex_646e03 by (simp add: simpleAESDecrypt_def eval_defs)

lemma auto_custom: "luraphCustomDecrypt (units ''646e03'') (units ''k'') =
    \<lparr>dr_success = True, dr_decrypted = [127, 143, 127, 5, 111, 87], dr_method = ''luraph_custom'', dr_error = None\<rparr>"
  by (simp add: luraphCustomDecrypt_def reverseBitManipulation_def customSubstitution_def eval_defs)

lemma auto_aes_v2: "aesDecryptV2 (units ''646e03'') (units ''k'') None =
    \<lparr>dr_success = True, dr_decrypted = units ''do'', dr_method = ''aes_cbc_v2'', dr_error = None\<rparr>"
  unfolding aesDecryptV2_def hex_646e03
  by (simp add: luraphAESDecrypt_def simpleAESDecrypt_def
      modifyKeyForLuraph_def generateIV_def removeLuraphPadding_def eval_defs)

lemma auto_scores:
  "scoreLuaCode [93, 95, 93, 14, 91, 88] = - 5"
  "scoreLuaCode [93, 88, 91, 11, 95, 67] = - 5"
  "scoreLuaCode [15, 5, 104] = - 10"
  "scoreLuaCode [127, 143, 127, 5, 111, 87] = - 15"
  "scoreLuaCode (units ''do'') = 10"
  unfolding scoreLuaCode_eq by (simp_all add: score_eval)

lemma auto_result:
  "autoDetectAndDecrypt (units ''646e03'') (units ''k'') =
     \<lparr>dr_success = True, dr_decrypted = [93, 95, 93, 14, 91, 88], dr_method = ''xor_v1'',
      dr_error = None\<rparr>"
  apply (simp only: autoDetectAndDecrypt.simps Let_def list.map)
  apply (simp add: decryptString.simps auto_v1 auto_v2 auto_aes auto_custom auto_scores
      selectBestResult_def)
  done

text \<open>
  Claim C3 (the code departs from it).  \<open>autoDetectAndDecrypt\<close> tries four methods,
  \<open>xor_v1\<close>, \<open>xor_v2\<close>, \<open>aes_cbc\<close> and \<open>luraph_custom\<close>; \<open>aes_cbc_v2\<close>, which
  \<open>decryptString\<close> supports, is not in its list.  For the ciphertext \<open>646e03\<close> and the
  key \<open>k\<close>, method \<open>aes_cbc_v2\<close> yields the plaintext \<open>do\<close> with score 10, yet method
  \<open>auto\<close> returns the \<open>xor_v1\<close> candidate with score -5 (the first of the two
  candidates tied at -5).
\<close>

theorem auto_detect_skips_aes_cbc_v2:
  "decryptString (units ''646e03'') (auto_info ''aes_cbc_v2'')
     = \<lparr>dr_success = True, dr_decrypted = units ''do'', dr_method = ''aes_cbc_v2'', dr_error = None\<rparr>
   \<and> scoreLuaCode (units ''do'') = 10
   \<and> decryptString (units ''646e03'') (auto_info ''auto'')
     = \<lparr>dr_success = True, dr_decrypted = [93, 95, 93, 14, 91, 88], dr_method = ''xor_v1'',
        dr_error = None\<rparr>
   \<and> scoreLuaCode [93, 95, 93, 14, 91, 88] = - 5"
  by (simp add: auto_info_def decryptString.simps auto_aes_v2 auto_scores auto_result)



section \<open>LuaLexer\<close>

datatype LuaTokenType =
    TK_NUMBER | TK_STRING | TK_BOOLEAN | TK_NIL | TK_IDENTIFIER
  | TK_AND | TK_BREAK | TK_DO | TK_ELSE | TK_ELSEIF | TK_END | TK_FALSE | TK_FOR
  | TK_FUNCTION | TK_IF | TK_IN | TK_LOCAL | TK_NOT | TK_OR | TK_REPEAT | TK_RETURN
  | TK_THEN | TK_TRUE | TK_UNTIL | TK_WHILE
  | TK_PLUS | TK_MINUS | TK_MULTIPLY | TK_DIVIDE | TK_MODULO | TK_POWER | TK_CONCAT
  | TK_LENGTH | TK_EQUAL | TK_NOT_EQUAL | TK_LESS_THAN | TK_LESS_EQUAL | TK_GREATER_THAN
  | TK_GREATER_EQUAL | TK_ASSIGN
  | TK_SEMICOLON | TK_COMMA | TK_DOT | TK_COLON | TK_DOUBLE_COLON | TK_LPAREN | TK_RPAREN
  | TK_LBRACE | TK_RBRACE | TK_LBRACKET | TK_RBRACKET
  | TK_EOF | TK_NEWLINE | TK_WHITESPACE | TK_COMMENT
  | TK_VM_CALL | TK_VM_HANDLER | TK_ENCRYPTED_STRING | TK_OBFUSCATED_NAME

record LuaToken =
  tk_type :: LuaTokenType
  tk_value :: jsstring
  tk_line :: nat
  tk_column :: nat
  tk_position :: nat

text \<open>The mutable fields of the lexer: \<open>position\<close>, \<open>line\<close>, \<open>column\<close>.\<close>

record LexerState =
  lx_position :: nat
  lx_line :: nat
  lx_column :: nat

definition initialLexer :: LexerState where
  "initialLexer = \<lparr>lx_position = 0, lx_line = 1, lx_column = 1\<rparr>"

definition char_at :: "jsstring \<Rightarrow> nat \<Rightarrow> nat option" where
  "char_at input i = (if i < length input then Some (input ! i) else None)"

text \<open>\<open>input.substring(start, end)\<close> and \<open>input.substr(start, n)\<close> for \<open>start \<le> end\<close>.\<close>

definition substring :: "jsstring \<Rightarrow> nat \<Rightarrow> nat \<Rightarrow> jsstring" where
  "substring input start e = take (e - start) (drop start input)"

definition substr :: "jsstring \<Rightarrow> nat \<Rightarrow> nat \<Rightarrow> jsstring" where
  "substr input start n = take n (drop start input)"

fun advance :: "jsstring \<Rightarrow> nat \<Rightarrow> LexerState \<Rightarrow> LexerState" where
  "advance input 0 st = st"
| "advance input (Suc n) st =
     (if lx_position st < length input
      then advance input n
             (if input ! lx_position st = 10
              then st\<lparr>lx_line := lx_line st + 1, lx_column := 1,
                      lx_position := lx_position st + 1\<rparr>
              else st\<lparr>lx_column := lx_column st + 1, lx_position := lx_position st + 1\<rparr>)
      else st)"

definition createToken :: "LuaTokenType \<Rightarrow> jsstring \<Rightarrow> LexerState \<Rightarrow> LuaToken" where
  "createToken ty v p =
     \<lparr>tk_type = ty, tk_value = v, tk_line = lx_line p, tk_column = lx_column p,
      tk_position = lx_position p\<rparr>"

lemma advance_position:
  "lx_position (advance input n st) =
     (if lx_position st \<le> length input then min (length input) (lx_position st + n)
      else lx_position st)"
  by (induction n arbitrary: st) auto

lemma advance_position_ge: "lx_position st \<le> lx_position (advance input n st)"
  by (simp add: advance_position)

lemma advance_position_gt:
  "lx_position st < length input \<Longrightarrow> 0 < n \<Longrightarrow>
     lx_position st < lx_position (advance input n st)"
  by (simp add: advance_position)

lemma advance_position_le:
  "lx_position st \<le> length input \<Longrightarrow> lx_position (advance input n st) \<le> length input"
  by (simp add: advance_position)

text \<open>
  The scanning loops of the lexer have one shape: while the position is inside the input
  and the current character satisfies a test, advance by one.
\<close>

function advance_while :: "(nat \<Rightarrow> bool) \<Rightarrow> jsstring \<Rightarrow> LexerState \<Rightarrow> LexerState" where
  "advance_while P input st =
     (if lx_position st < length input \<and> P (input ! lx_position st)
      then advance_while P input (advance input 1 st) else st)"
  by pat_completeness auto
termination
proof (relation "measure (\<lambda>(P, input, st). length input - lx_position st)", goal_cases)
  case 1
  show ?case by simp
next
  case (2 P input st)
  then show ?case by (auto simp: advance_position)
qed

declare advance_while.simps [simp del]

definition skipWhitespace :: "jsstring \<Rightarrow> LexerState \<Rightarrow> LexerState" where
  "skipWhitespace input st = advance_while (\<lambda>c. is_js_space c \<and> c \<noteq> 10) input st"

text \<open>
  \<open>checkLongStringStart\<close>: the number of \<open>=\<close> signs after the current character when
  a second \<open>[\<close> follows them; \<open>None\<close> stands for the result -1.
\<close>

definition checkLongStringStart :: "jsstring \<Rightarrow> LexerState \<Rightarrow> nat option" where
  "checkLongStringStart input st =
     (let level = length (takeWhile (\<lambda>c. c = 61) (drop (lx_position st + 1) input));
          pos = lx_position st + 1 + level
      in if char_at input pos = Some 91 then Some level else None)"

function readLongString_loop :: "jsstring \<Rightarrow> jsstring \<Rightarrow> LexerState \<Rightarrow> LexerState" where
  "readLongString_loop closePattern input st =
     (if lx_position st < length input
      then (if substr input (lx_position st) (length closePattern) = closePattern
            then advance input (length closePattern) st
            else readLongString_loop closePattern input (advance input 1 st))
      else st)"
  by pat_completeness auto
termination
proof (relation "measure (\<lambda>(c, input, st). length input - lx_position st)", goal_cases)
  case 1
  show ?case by simp
next
  case (2 closePattern input st)
  then show ?case by (auto simp: advance_position)
qed

declare readLongString_loop.simps [simp del]

definition readLongString :: "jsstring \<Rightarrow> nat \<Rightarrow> LexerState \<Rightarrow> LuaToken \<times> LexerState" where
  "readLongString input level st =
     (let closePattern = [93] @ replicate level 61 @ [93];
          st1 = advance input (level + 2) st;
          st2 = readLongString_loop closePattern input st1
      in (createToken TK_STRING (substring input (lx_position st) (lx_position st2)) st, st2))"

definition readComment :: "jsstring \<Rightarrow> LexerState \<Rightarrow> LuaToken \<times> LexerState" where
  "readComment input st =
     (let st1 = advance input 2 st;
          level = (if char_at input (lx_position st1) = Some 91
                   then checkLongStringStart input st1 else None)
      in case level of
           Some l \<Rightarrow>
             (let st2 = snd (readLongString input l st1)
              in (createToken TK_COMMENT (substring input (lx_position st) (lx_position st2)) st,
                  st2))
         | None \<Rightarrow>
             (let st2 = advance_while (\<lambda>c. c \<noteq> 10) input st1
              in (createToken TK_COMMENT (substring input (lx_position st) (lx_position st2)) st,
                  st2)))"

definition readNumber :: "jsstring \<Rightarrow> LexerState \<Rightarrow> LuaToken \<times> LexerState" where
  "readNumber input st =
     (let st1 = advance_while
                  (\<lambda>c. is_digit c \<or> c = 46 \<or> c = 101 \<or> c = 69 \<or> c = 43 \<or> c = 45) input st
      in (createToken TK_NUMBER (substring input (lx_position st) (lx_position st1)) st, st1))"

function readString_loop :: "nat \<Rightarrow> jsstring \<Rightarrow> LexerState \<Rightarrow> LexerState" where
  "readString_loop quote input st =
     (if lx_position st < length input
      then (let current = input ! lx_position st
            in if current = quote then advance input 1 st
               else if current = 92
               then (let st1 = advance input 1 st
                     in if lx_position st1 < length input
                        then readString_loop quote input (advance input 1 st1)
                        else readString_loop quote input st1)
               else readString_loop quote input (advance input 1 st))
      else st)"
  by pat_completeness auto
termination
proof (relation "measure (\<lambda>(q, input, st). length input - lx_position st)", goal_cases)
  case 1
  show ?case by simp
next
  case (2 quote input st current st1)
  then show ?case by (auto simp: advance_position)
next
  case (3 quote input st current st1)
  then show ?case by (auto simp: advance_position)
next
  case (4 quote input st current)
  then show ?case by (auto simp: advance_position)
qed

declare readString_loop.simps [simp del]

text \<open>
  \<open>isEncryptedString\<close>: any of \<open>/\\x[0-9a-fA-F]{2}/\<close>, \<open>/\\[0-9]{1,3}/\<close>,
  \<open>/[^\x20-\x7E]{5,}/\<close> matches somewhere in the literal.
\<close>

definition isEncryptedString :: "jsstring \<Rightarrow> bool" where
  "isEncryptedString v \<longleftrightarrow>
     rx_test [Lit 92, Lit 120, Rep is_hex_digit 2 (Some 2) True] v
     \<or> rx_test [Lit 92, Rep is_digit 1 (Some 3) True] v
     \<or> rx_test [Rep (\<lambda>c. \<not> (32 \<le> c \<and> c \<le> 126)) 5 None True] v"

definition readString :: "jsstring \<Rightarrow> nat \<Rightarrow> LexerState \<Rightarrow> LuaToken \<times> LexerState" where
  "readString input quote st =
     (let st1 = advance input 1 st;
          st2 = readString_loop quote input st1;
          v = substring input (lx_position st) (lx_position st2)
      in if isEncryptedString v then (createToken TK_ENCRYPTED_STRING v st, st2)
         else (createToken TK_STRING v st, st2))"

text \<open>
  \<open>isObfuscatedName\<close>: any of \<open>/^[a-zA-Z_][a-zA-Z0-9_]{20,}$/\<close>, \<open>/^[lI1oO0]{4,}$/\<close>,
  \<open>/^[a-zA-Z]_[a-zA-Z0-9_]{10,}$/\<close> matches.
\<close>

definition isObfuscatedName :: "jsstring \<Rightarrow> bool" where
  "isObfuscatedName name \<longleftrightarrow>
     rx_test [Bol, One (\<lambda>c. is_alpha c \<or> c = 95), Rep is_word 20 None True, Eol] name
     \<or> rx_test [Bol, Rep (\<lambda>c. c \<in> {108, 73, 49, 111, 79, 48}) 4 None True, Eol] name
     \<or> rx_test [Bol, One is_alpha, Lit 95, Rep is_word 10 None True, Eol] name"

text \<open>The keyword set and \<open>getKeywordTokenType\<close>, as one table.\<close>

definition keywordMap :: "(string \<times> LuaTokenType) list" where
  "keywordMap =
     [(''and'', TK_AND), (''break'', TK_BREAK), (''do'', TK_DO), (''else'', TK_ELSE),
      (''elseif'', TK_ELSEIF), (''end'', TK_END), (''false'', TK_FALSE), (''for'', TK_FOR),
      (''function'', TK_FUNCTION), (''if'', TK_IF), (''in'', TK_IN), (''local'', TK_LOCAL),
      (''nil'', TK_NIL), (''not'', TK_NOT), (''or'', TK_OR), (''repeat'', TK_REPEAT),
      (''return'', TK_RETURN), (''then'', TK_THEN), (''true'', TK_TRUE), (''until'', TK_UNTIL),
      (''while'', TK_WHILE)]"

definition keywordType :: "jsstring \<Rightarrow> LuaTokenType option" where
  "keywordType v = map_of (map (\<lambda>(k, t). (units k, t)) keywordMap) v"

text \<open>\<open>toLowerCase\<close> on the text of an identifier, which holds ASCII letters, digits and \<open>_\<close> only.\<close>

definition toLowerCase :: "jsstring \<Rightarrow> jsstring" where
  "toLowerCase s = map (\<lambda>c. if 65 \<le> c \<and> c \<le> 90 then c + 32 else c) s"

definition readIdentifier :: "jsstring \<Rightarrow> LexerState \<Rightarrow> LuaToken \<times> LexerState" where
  "readIdentifier input st =
     (let st1 = advance_while (\<lambda>c. is_alpha c \<or> is_digit c \<or> c = 95) input st;
          v = substring input (lx_position st) (lx_position st1)
      in case keywordType (toLowerCase v) of
           Some tokenType \<Rightarrow> (createToken tokenType v st, st1)
         | None \<Rightarrow>
             if isObfuscatedName v then (createToken TK_OBFUSCATED_NAME v st, st1)
             else (createToken TK_IDENTIFIER v st, st1))"

definition twoCharTokens :: "(string \<times> LuaTokenType) list" where
  "twoCharTokens =
     [(''=='', TK_EQUAL), (''~='', TK_NOT_EQUAL), (''<='', TK_LESS_EQUAL),
      (''>='', TK_GREATER_EQUAL), (''..'', TK_CONCAT), (''::'', TK_DOUBLE_COLON)]"

definition singleCharTokens :: "(char \<times> LuaTokenType) list" where
  "singleCharTokens =
     [(CHR ''+'', TK_PLUS), (CHR ''-'', TK_MINUS), (CHR ''*'', TK_MULTIPLY),
      (CHR ''/'', TK_DIVIDE), (CHR ''%'', TK_MODULO), (CHR ''^'', TK_POWER),
      (CHR ''#'', TK_LENGTH), (CHR ''<'', TK_LESS_THAN), (CHR ''>'', TK_GREATER_THAN),
      (CHR ''='', TK_ASSIGN), (CHR '';'', TK_SEMICOLON), (CHR '','', TK_COMMA),
      (CHR ''.'', TK_DOT), (CHR '':'', TK_COLON), (CHR ''('', TK_LPAREN),
      (CHR '')'', TK_RPAREN), (CHR ''{'', TK_LBRACE), (CHR ''}'', TK_RBRACE),
      (CHR ''['', TK_LBRACKET), (CHR '']'', TK_RBRACKET), (CHR 0x0A, TK_NEWLINE)]"

definition twoCharType :: "jsstring \<Rightarrow> LuaTokenType option" where
  "twoCharType v = map_of (map (\<lambda>(k, t). (units k, t)) twoCharTokens) v"

definition singleCharType :: "nat \<Rightarrow> LuaTokenType option" where
  "singleCharType c = map_of (map (\<lambda>(k, t). (of_char k, t)) singleCharTokens) c"

text \<open>
  \<open>nextToken\<close> returns the token, or \<open>None\<close> for the source's \<open>null\<close>, and the new
  state.  The branches are tried in the source's order.  Called at the end of the input
  (the lexer's loop never does this) \<open>current\<close> is \<open>undefined\<close>; the letter test is then
  applied to the text \<open>undefined\<close> and succeeds, and \<open>readIdentifier\<close> returns an
  identifier with empty text.
\<close>

definition nextToken :: "jsstring \<Rightarrow> LexerState \<Rightarrow> LuaToken option \<times> LexerState" where
  "nextToken input st =
     (case char_at input (lx_position st) of
        None \<Rightarrow> (let (t, st1) = readIdentifier input st in (Some t, st1))
      | Some current \<Rightarrow>
          if current = 45 \<and> char_at input (lx_position st + 1) = Some 45
            then (let (t, st1) = readComment input st in (Some t, st1))
          else if is_digit current
            then (let (t, st1) = readNumber input st in (Some t, st1))
          else if current = 34 \<or> current = 39
            then (let (t, st1) = readString input current st in (Some t, st1))
          else (case (if current = 91 then checkLongStringStart input st else None) of
              Some level \<Rightarrow>
                (let (t, st1) = readLongString input level st in (Some t, st1))
            | None \<Rightarrow>
                if is_alpha current \<or> current = 95
                  then (let (t, st1) = readIdentifier input st in (Some t, st1))
                else (case twoCharType (substr input (lx_position st) 2) of
                        Some ty \<Rightarrow>
                          (Some (createToken ty (substr input (lx_position st) 2) st),
                           advance input 2 st)
                      | None \<Rightarrow>
                          (case singleCharType current of
                             Some ty \<Rightarrow>
                               (Some (createToken ty [current] st), advance input 1 st)
                           | None \<Rightarrow> (None, advance input 1 st)))))"

subsection \<open>The lexer always advances\<close>

declare advance.simps [simp del]

subsection \<open>Every scanning step moves forward and stays inside the input\<close>

lemma advance_while_ge: "lx_position st \<le> lx_position (advance_while P input st)"
proof (induction P input st rule: advance_while.induct)
  case (1 P input st)
  show ?case
  proof (cases "lx_position st < length input \<and> P (input ! lx_position st)")
    case True
    then have "lx_position st \<le> lx_position (advance input 1 st)"
      by (simp add: advance_position)
    also have "\<dots> \<le> lx_position (advance_while P input (advance input 1 st))"
      using 1 True by simp
    finally show ?thesis using True by (subst advance_while.simps) auto
  next
    case False
    then show ?thesis by (subst advance_while.simps) auto
  qed
qed

lemma advance_while_le:
  "lx_position st \<le> length input \<Longrightarrow> lx_position (advance_while P input st) \<le> length input"
proof (induction P input st rule: advance_while.induct)
  case (1 P input st)
  show ?case
  proof (cases "lx_position st < length input \<and> P (input ! lx_position st)")
    case True
    then have "lx_position (advance input 1 st) \<le> length input"
      by (simp add: advance_position)
    then show ?thesis using 1 True by (subst advance_while.simps) auto
  next
    case False
    then show ?thesis using 1 by (subst advance_while.simps) auto
  qed
qed

lemma advance_while_gt:
  assumes "lx_position st < length input" "P (input ! lx_position st)"
  shows "lx_position st < lx_position (advance_while P input st)"
proof -
  have "lx_position st < lx_position (advance input 1 st)"
    using assms by (simp add: advance_position)
  also have "\<dots> \<le> lx_position (advance_while P input (advance input 1 st))"
    by (rule advance_while_ge)
  finally show ?thesis using assms by (subst advance_while.simps) auto
qed

lemma readLongString_loop_ge:
  "lx_position st \<le> lx_position (readLongString_loop c input st)"
proof (induction c input st rule: readLongString_loop.induct)
  case (1 c input st)
  show ?case
  proof (cases "lx_position st < length input")
    case True
    show ?thesis
    proof (cases "substr input (lx_position st) (length c) = c")
      case eq: True
      then show ?thesis using True
        by (subst readLongString_loop.simps) (simp add: advance_position)
    next
      case False
      have "lx_position st \<le> lx_position (advance input 1 st)"
        by (simp add: advance_position)
      also have "\<dots> \<le> lx_position (readLongString_loop c input (advance input 1 st))"
        using 1 True False by simp
      finally show ?thesis using True False by (subst readLongString_loop.simps) auto
    qed
  next
    case False
    then show ?thesis by (subst readLongString_loop.simps) auto
  qed
qed

lemma readLongString_loop_le:
  "lx_position st \<le> length input \<Longrightarrow>
     lx_position (readLongString_loop c input st) \<le> length input"
proof (induction c input st rule: readLongString_loop.induct)
  case (1 c input st)
  show ?case
  proof (cases "lx_position st < length input")
    case True
    show ?thesis
    proof (cases "substr input (lx_position st) (length c) = c")
      case eq: True
      then show ?thesis using True
        by (subst readLongString_loop.simps) (simp add: advance_position)
    next
      case False
      have "lx_position (advance input 1 st) \<le> length input"
        using True by (simp add: advance_position)
      then show ?thesis using 1 True False by (subst readLongString_loop.simps) auto
    qed
  next
    case False
    then show ?thesis using 1 by (subst readLongString_loop.simps) auto
  qed
qed

lemma readString_loop_ge:
  "lx_position st \<le> lx_position (readString_loop q input st)"
proof (induction q input st rule: readString_loop.induct)
  case (1 q input st)
  show ?case
  proof (cases "lx_position st < length input")
    case True
    note a = advance_position_ge[of st input 1]
    note b = advance_position_ge[of "advance input 1 st" input 1]
    show ?thesis
      using True a b 1
      by (subst readString_loop.simps) (auto simp: Let_def intro: order_trans)
  next
    case False
    then show ?thesis by (subst readString_loop.simps) auto
  qed
qed

lemma readString_loop_le:
  "lx_position st \<le> length input \<Longrightarrow>
     lx_position (readString_loop q input st) \<le> length input"
proof (induction q input st rule: readString_loop.induct)
  case (1 q input st)
  show ?case
  proof (cases "lx_position st < length input")
    case True
    note a = advance_position_le[of st input 1]
    note b = advance_position_le[of "advance input 1 st" input 1]
    show ?thesis
      using True a b 1
      by (subst readString_loop.simps) (auto simp: Let_def)
  next
    case False
    then show ?thesis using 1 by (subst readString_loop.simps) auto
  qed
qed


lemma readLongString_ge: "lx_position st \<le> lx_position (snd (readLongString input level st))"
  using readLongString_loop_ge[of "advance input (level + 2) st"]
    advance_position_ge[of st input "level + 2"]
  by (auto simp: readLongString_def Let_def intro: order_trans)

lemma readLongString_gt:
  "lx_position st < length input \<Longrightarrow>
     lx_position st < lx_position (snd (readLongString input level st))"
  using readLongString_loop_ge[of "advance input (level + 2) st"]
    advance_position_gt[of st input "level + 2"]
  by (auto simp: readLongString_def Let_def intro: less_le_trans)

lemma readLongString_le:
  "lx_position st \<le> length input \<Longrightarrow>
     lx_position (snd (readLongString input level st)) \<le> length input"
  by (simp add: readLongString_def Let_def readLongString_loop_le advance_position_le)

lemma readComment_gt:
  assumes "lx_position st < length input"
  shows "lx_position st < lx_position (snd (readComment input st))"
proof -
  have a: "lx_position st < lx_position (advance input 2 st)"
    using assms by (simp add: advance_position)
  have b: "lx_position (advance input 2 st)
             \<le> lx_position (snd (readLongString input l (advance input 2 st)))" for l
    by (rule readLongString_ge)
  have c: "lx_position (advance input 2 st)
             \<le> lx_position (advance_while (\<lambda>c. c \<noteq> 10) input (advance input 2 st))"
    by (rule advance_while_ge)
  show ?thesis
    using a b c by (auto simp: readComment_def Let_def split: option.splits intro: less_le_trans)
qed

lemma readComment_le:
  assumes "lx_position st \<le> length input"
  shows "lx_position (snd (readComment input st)) \<le> length input"
  using assms
  by (auto simp: readComment_def Let_def readLongString_le advance_while_le advance_position_le
      split: option.splits)

lemma readNumber_gt:
  "lx_position st < length input \<Longrightarrow> is_digit (input ! lx_position st) \<Longrightarrow>
     lx_position st < lx_position (snd (readNumber input st))"
  by (simp add: readNumber_def Let_def advance_while_gt)

lemma readNumber_le:
  "lx_position st \<le> length input \<Longrightarrow> lx_position (snd (readNumber input st)) \<le> length input"
  by (simp add: readNumber_def Let_def advance_while_le)

lemma readString_gt:
  assumes "lx_position st < length input"
  shows "lx_position st < lx_position (snd (readString input q st))"
proof -
  have "lx_position st < lx_position (advance input 1 st)"
    using assms by (simp add: advance_position)
  also have "\<dots> \<le> lx_position (readString_loop q input (advance input 1 st))"
    by (rule readString_loop_ge)
  finally show ?thesis by (simp add: readString_def Let_def)
qed

lemma readString_le:
  "lx_position st \<le> length input \<Longrightarrow>
     lx_position (snd (readString input q st)) \<le> length input"
  by (simp add: readString_def Let_def readString_loop_le advance_position_le)

lemma readIdentifier_ge: "lx_position st \<le> lx_position (snd (readIdentifier input st))"
  by (auto simp: readIdentifier_def Let_def advance_while_ge split: option.splits)

lemma readIdentifier_gt:
  "lx_position st < length input \<Longrightarrow>
   is_alpha (input ! lx_position st) \<or> input ! lx_position st = 95 \<Longrightarrow>
     lx_position st < lx_position (snd (readIdentifier input st))"
  by (auto simp: readIdentifier_def Let_def split: option.splits intro!: advance_while_gt)

lemma readIdentifier_le:
  "lx_position st \<le> length input \<Longrightarrow>
     lx_position (snd (readIdentifier input st)) \<le> length input"
  by (auto simp: readIdentifier_def Let_def advance_while_le split: option.splits)

lemma reader_token_position [simp]:
  "tk_position (fst (readLongString input level st)) = lx_position st"
  "tk_position (fst (readComment input st)) = lx_position st"
  "tk_position (fst (readNumber input st)) = lx_position st"
  "tk_position (fst (readString input q st)) = lx_position st"
  "tk_position (fst (readIdentifier input st)) = lx_position st"
  by (auto simp: readLongString_def readComment_def readNumber_def readString_def
      readIdentifier_def createToken_def Let_def split: option.splits)

lemma nextToken_gt:
  assumes "lx_position st < length input"
  shows "lx_position st < lx_position (snd (nextToken input st))"
  using assms readComment_gt[OF assms] readNumber_gt[OF assms] readString_gt[OF assms]
    readLongString_gt[OF assms] readIdentifier_gt[OF assms]
  by (auto simp: nextToken_def char_at_def split_beta advance_position
      split: option.splits if_splits)

lemma nextToken_le:
  assumes "lx_position st \<le> length input"
  shows "lx_position (snd (nextToken input st)) \<le> length input"
  using readComment_le[OF assms] readNumber_le[OF assms] readString_le[OF assms]
    readLongString_le[OF assms] readIdentifier_le[OF assms]
  by (auto simp: nextToken_def char_at_def split_beta advance_position
      split: option.splits if_splits)

lemma nextToken_token_position:
  "fst (nextToken input st) = Some t \<Longrightarrow> tk_position t = lx_position st"
  by (auto simp: nextToken_def char_at_def split_beta createToken_def
      split: option.splits if_splits)

lemma skipWhitespace_ge: "lx_position st \<le> lx_position (skipWhitespace input st)"
  by (simp add: skipWhitespace_def advance_while_ge)

lemma skipWhitespace_le:
  "lx_position st \<le> length input \<Longrightarrow> lx_position (skipWhitespace input st) \<le> length input"
  by (simp add: skipWhitespace_def advance_while_le)

subsection \<open>\<open>tokenize\<close>\<close>

text \<open>
  The main loop of \<open>tokenize\<close>, from a lexer state: the tokens pushed from there on and
  the state in which the loop ends.  It terminates because \<open>nextToken\<close> always advances.
\<close>

function tokenize_loop :: "jsstring \<Rightarrow> LexerState \<Rightarrow> LuaToken list \<times> LexerState" where
  "tokenize_loop input st =
     (if lx_position st < length input
      then (let st1 = skipWhitespace input st
            in if length input \<le> lx_position st1 then ([], st1)
               else (let (token, st2) = nextToken input st1;
                         (tokens, st3) = tokenize_loop input st2
                     in (case token of None \<Rightarrow> tokens | Some t \<Rightarrow> t # tokens, st3)))
      else ([], st))"
  by pat_completeness auto
termination
proof (relation "measure (\<lambda>(input, st). length input - lx_position st)", goal_cases)
  case 1
  show ?case by simp
next
  case (2 input st st1 x token st2)
  then have "lx_position st \<le> lx_position st1" "lx_position st1 < length input"
    by (simp_all add: skipWhitespace_ge)
  moreover have "lx_position st1 < lx_position st2"
    using nextToken_gt[of st1 input] 2 by (metis calculation(2) snd_conv)
  ultimately show ?case by simp
qed

declare tokenize_loop.simps [simp del]

definition tokenize :: "jsstring \<Rightarrow> LuaToken list" where
  "tokenize input =
     (let (tokens, st) = tokenize_loop input initialLexer
      in tokens @ [\<lparr>tk_type = TK_EOF, tk_value = [], tk_line = lx_line st,
                    tk_column = lx_column st, tk_position = lx_position st\<rparr>])"


lemma tokenize_loop_props:
  "lx_position st \<le> length input \<Longrightarrow>
     lx_position st \<le> lx_position (snd (tokenize_loop input st)) \<and>
     lx_position (snd (tokenize_loop input st)) \<le> length input \<and>
     sorted (map tk_position (fst (tokenize_loop input st))) \<and>
     (\<forall>t \<in> set (fst (tokenize_loop input st)).
        lx_position st \<le> tk_position t \<and>
        tk_position t \<le> lx_position (snd (tokenize_loop input st)))"
proof (induction input st rule: tokenize_loop.induct)
  case (1 input st)
  show ?case
  proof (cases "lx_position st < length input")
    case False
    then show ?thesis using "1.prems" by (subst (1 2 3 4 5) tokenize_loop.simps) simp
  next
    case True
    define st1 where "st1 = skipWhitespace input st"
    have s1: "lx_position st \<le> lx_position st1" "lx_position st1 \<le> length input"
      using "1.prems" by (simp_all add: st1_def skipWhitespace_ge skipWhitespace_le)
    show ?thesis
    proof (cases "length input \<le> lx_position st1")
      case True
      then show ?thesis using \<open>lx_position st < length input\<close> s1
        by (subst (1 2 3 4 5) tokenize_loop.simps) (simp add: st1_def[symmetric] Let_def)
    next
      case False
      obtain token st2 where nt: "nextToken input st1 = (token, st2)"
        by (cases "nextToken input st1")
      obtain tokens st3 where tl: "tokenize_loop input st2 = (tokens, st3)"
        by (cases "tokenize_loop input st2")
      have lt: "lx_position st1 < lx_position st2"
        using nextToken_gt[of st1 input] False nt by simp
      have le: "lx_position st2 \<le> length input"
        using nextToken_le[of st1 input] s1 nt by simp
      have IH: "lx_position st2 \<le> lx_position st3 \<and> lx_position st3 \<le> length input \<and>
                sorted (map tk_position tokens) \<and>
                (\<forall>t \<in> set tokens. lx_position st2 \<le> tk_position t \<and>
                                     tk_position t \<le> lx_position st3)"
        using "1.IH"[OF True st1_def False refl nt[symmetric] le] tl by simp
      have eq: "tokenize_loop input st =
                  (case token of None \<Rightarrow> tokens | Some t \<Rightarrow> t # tokens, st3)"
        using True False nt tl
        by (subst tokenize_loop.simps) (simp add: st1_def[symmetric] Let_def)
      have tp: "tk_position t = lx_position st1" if "token = Some t" for t
        using nextToken_token_position[of input st1 t] nt that by simp
      show ?thesis
        unfolding eq using IH s1 lt tp
        by (cases token) (auto intro: order_trans less_imp_le)
    qed
  qed
qed

text \<open>
  Claim C10.  For every input, \<open>tokenize\<close> returns (it is a total function: its loop
  terminates because every call of \<open>nextToken\<close> inside the input advances the position)
  a list that is not empty, whose last element is an \<open>EOF\<close> token at an offset that is at
  most the length of the input, and in which the offsets of the tokens never decrease.
\<close>

theorem tokenize_ends_with_eof:
  "tokenize input \<noteq> [] \<and>
   tk_type (last (tokenize input)) = TK_EOF \<and>
   tk_position (last (tokenize input)) \<le> length input \<and>
   sorted (map tk_position (tokenize input))"
proof -
  obtain tokens st where tl: "tokenize_loop input initialLexer = (tokens, st)"
    by (cases "tokenize_loop input initialLexer")
  have "lx_position initialLexer \<le> length input" by (simp add: initialLexer_def)
  from tokenize_loop_props[OF this] tl
  have p: "lx_position st \<le> length input" "sorted (map tk_position tokens)"
    "\<forall>t \<in> set tokens. tk_position t \<le> lx_position st"
    by simp_all
  show ?thesis
    using p by (simp add: tokenize_def tl sorted_append)
qed

subsection \<open>Characters that no branch of \<open>nextToken\<close> handles\<close>


lemma singleCharType_45 [simp]: "singleCharType 45 = Some TK_MINUS"
  by (simp add: singleCharType_def singleCharTokens_def)

lemma singleCharType_91 [simp]: "singleCharType 91 = Some TK_LBRACKET"
  by (simp add: singleCharType_def singleCharTokens_def)

lemma singleCharType_10 [simp]: "singleCharType 10 = Some TK_NEWLINE"
  by (simp add: singleCharType_def singleCharTokens_def)







section \<open>The bytecode types and the \<open>.luac\<close> emitter (LuacGenerator)\<close>

subsection \<open>Instructions, constants and prototypes\<close>

text \<open>
  \<open>LuaOpcode\<close> is a numeric enumeration; its members are numbers at run time.  These are
  the members that the reconstructor and the emitter name.
\<close>

definition OP_MOVE :: nat where "OP_MOVE = 0"
definition OP_LOADK :: nat where "OP_LOADK = 1"
definition OP_LOADBOOL :: nat where "OP_LOADBOOL = 3"
definition OP_LOADNIL :: nat where "OP_LOADNIL = 4"
definition OP_NEWTABLE :: nat where "OP_NEWTABLE = 11"
definition OP_ADD :: nat where "OP_ADD = 13"
definition OP_SUB :: nat where "OP_SUB = 14"
definition OP_MUL :: nat where "OP_MUL = 15"
definition OP_MOD :: nat where "OP_MOD = 16"
definition OP_POW :: nat where "OP_POW = 17"
definition OP_DIV :: nat where "OP_DIV = 18"
definition OP_JMP :: nat where "OP_JMP = 30"
definition OP_CALL :: nat where "OP_CALL = 36"
definition OP_RETURN :: nat where "OP_RETURN = 38"

lemmas opcode_defs = OP_MOVE_def OP_LOADK_def OP_LOADBOOL_def OP_LOADNIL_def OP_NEWTABLE_def
  OP_ADD_def OP_SUB_def OP_MUL_def OP_MOD_def OP_POW_def OP_DIV_def OP_JMP_def OP_CALL_def
  OP_RETURN_def

text \<open>
  Numbers are integers here: register numbers, constant indexes, line numbers and integer
  constants.  The optional fields of an instruction are \<open>None\<close> when \<open>undefined\<close>.
\<close>

record VMInstruction =
  i_opcode :: nat
  i_a :: int
  i_b :: int
  i_c :: int
  i_bx :: "int option"
  i_sbx :: "int option"
  i_ax :: "int option"
  i_line :: "int option"

text \<open>
  A constant is its \<open>type\<close> tag together with a \<open>value\<close> of that type: \<open>nil\<close> with the value
  \<open>null\<close>, a boolean, a number, or a string.  A number is an integer or \<open>NaN\<close>.
\<close>

datatype ConstValue = KNil | KBoolean bool | KNumber int | KNaN | KString jsstring

record VMConstant =
  k_value :: ConstValue
  k_index :: int

record VMUpvalue =
  u_name :: jsstring
  u_index :: int
  u_isLocal :: bool
  u_register :: int

datatype VMProto = VMProto
  (p_instructions: "VMInstruction list")
  (p_constants: "VMConstant list")
  (p_upvalues: "VMUpvalue list")
  (p_protos: "VMProto list")
  (p_source: jsstring)
  (p_lineDefined: int)
  (p_lastLineDefined: int)
  (p_numParams: int)
  (p_isVararg: bool)
  (p_maxStackSize: int)

subsection \<open>A \<open>DataView\<close> on a buffer of fixed length\<close>

datatype js_error = RangeError | SyntaxError | TypeError

definition and_then :: "js_error + 'a \<Rightarrow> ('a \<Rightarrow> js_error + 'b) \<Rightarrow> js_error + 'b" where
  "and_then r f = (case r of Inl e \<Rightarrow> Inl e | Inr x \<Rightarrow> f x)"

record DataView =
  dv_bytes :: "nat \<Rightarrow> nat"
  dv_byteLength :: nat

text \<open>The \<open>n\<close> low bytes of an integer in two's complement, least significant first.\<close>

definition le_bytes :: "nat \<Rightarrow> int \<Rightarrow> nat list" where
  "le_bytes n v = map (\<lambda>i. nat ((v div 256 ^ i) mod 256)) [0..<n]"

fun write_bytes :: "(nat \<Rightarrow> nat) \<Rightarrow> nat \<Rightarrow> nat list \<Rightarrow> (nat \<Rightarrow> nat)" where
  "write_bytes m off [] = m"
| "write_bytes m off (b # bs) = write_bytes (m(off := b)) (off + 1) bs"

text \<open>
  Every setter of a \<open>DataView\<close> throws a \<open>RangeError\<close>, and writes nothing, when the bytes
  it is to write do not all lie inside the buffer.
\<close>

definition set_bytes :: "DataView \<Rightarrow> nat \<Rightarrow> nat list \<Rightarrow> js_error + DataView" where
  "set_bytes dv off bs =
     (if off + length bs \<le> dv_byteLength dv
      then Inr (dv\<lparr>dv_bytes := write_bytes (dv_bytes dv) off bs\<rparr>)
      else Inl RangeError)"

definition setUint8 :: "DataView \<Rightarrow> nat \<Rightarrow> int \<Rightarrow> js_error + DataView" where
  "setUint8 dv off v = set_bytes dv off (le_bytes 1 v)"

definition setUint32 :: "DataView \<Rightarrow> nat \<Rightarrow> int \<Rightarrow> js_error + DataView" where
  "setUint32 dv off v = set_bytes dv off (le_bytes 4 v)"

definition setBigInt64 :: "DataView \<Rightarrow> nat \<Rightarrow> int \<Rightarrow> js_error + DataView" where
  "setBigInt64 dv off v = set_bytes dv off (le_bytes 8 v)"

text \<open>
  A number that is written as a float is given by its binary64 image; the image written
  for \<open>NaN\<close> is \<open>0x7FF8000000000000\<close>.  \<open>binary64 k e\<close> is
  the image of the positive number \<open>k \<times> 2\<^sup>e\<close> when it is a normal number and \<open>k\<close> has at
  most 53 bits: the exponent field, biased by 1023, above the 52 bits of the fraction.
\<close>

fun bit_length :: "nat \<Rightarrow> nat" where
  "bit_length k = (if k = 0 then 0 else Suc (bit_length (k div 2)))"

declare bit_length.simps [simp del]

definition binary64 :: "nat \<Rightarrow> int \<Rightarrow> int" where
  "binary64 k e =
     (e + int (bit_length k) - 1 + 1023) * 2 ^ 52 + (int k * 2 ^ (53 - bit_length k) - 2 ^ 52)"

definition setFloat64 :: "DataView \<Rightarrow> nat \<Rightarrow> int \<Rightarrow> js_error + DataView" where
  "setFloat64 dv off bits = set_bytes dv off (le_bytes 8 bits)"

text \<open>
  The emitter's idiom: write at \<open>offset\<close>, then move \<open>offset\<close> past what was written.  The
  state of a writer is the view and the offset.
\<close>

type_synonym wstate = "DataView \<times> nat"

definition put_u8 :: "int \<Rightarrow> wstate \<Rightarrow> js_error + wstate" where
  "put_u8 v s = and_then (setUint8 (fst s) (snd s) v) (\<lambda>dv. Inr (dv, snd s + 1))"

definition put_u32 :: "int \<Rightarrow> wstate \<Rightarrow> js_error + wstate" where
  "put_u32 v s = and_then (setUint32 (fst s) (snd s) v) (\<lambda>dv. Inr (dv, snd s + 4))"

definition put_i64 :: "int \<Rightarrow> wstate \<Rightarrow> js_error + wstate" where
  "put_i64 v s = and_then (setBigInt64 (fst s) (snd s) v) (\<lambda>dv. Inr (dv, snd s + 8))"

definition put_f64 :: "int \<Rightarrow> wstate \<Rightarrow> js_error + wstate" where
  "put_f64 bits s = and_then (setFloat64 (fst s) (snd s) bits) (\<lambda>dv. Inr (dv, snd s + 8))"

text \<open>One writer after another, and a writer for each element of a list in turn.\<close>

definition seq_w :: "(wstate \<Rightarrow> js_error + wstate) \<Rightarrow> (wstate \<Rightarrow> js_error + wstate) \<Rightarrow>
    wstate \<Rightarrow> js_error + wstate" where
  "seq_w w1 w2 s = and_then (w1 s) w2"

fun each_w :: "('a \<Rightarrow> wstate \<Rightarrow> js_error + wstate) \<Rightarrow> 'a list \<Rightarrow> wstate \<Rightarrow>
    js_error + wstate" where
  "each_w w [] s = Inr s"
| "each_w w (x # xs) s = and_then (w x s) (each_w w xs)"

subsection \<open>The emitter\<close>

definition LUA_SIGNATURE :: int where "LUA_SIGNATURE = 0x1B4C7561"
definition LUAC_VERSION :: int where "LUAC_VERSION = 0x53"
definition LUAC_FORMAT :: int where "LUAC_FORMAT = 0"
definition LUAC_DATA :: jsstring where "LUAC_DATA = [0x19, 0x93, 0x0D, 0x0A, 0x1A, 0x0A]"

text \<open>The number 370.5 is \<open>741 \<times> 2\<^sup>-\<^sup>1\<close>.\<close>

definition writeHeader :: "wstate \<Rightarrow> js_error + wstate" where
  "writeHeader =
     seq_w (put_u32 LUA_SIGNATURE)
    (seq_w (put_u8 LUAC_VERSION)
    (seq_w (put_u8 LUAC_FORMAT)
    (seq_w (each_w (\<lambda>c. put_u8 (int c)) LUAC_DATA)
    (seq_w (put_u8 4)
    (seq_w (put_u8 8)
    (seq_w (put_u8 4)
    (seq_w (put_u8 8)
    (seq_w (put_u8 8)
    (seq_w (put_i64 0x5678)
           (put_f64 (binary64 741 (- 1))))))))))))"

text \<open>
  \<open>TextEncoder.encode\<close>: UTF-8, a surrogate pair giving one code point and a lone
  surrogate the replacement character U+FFFD.
\<close>

definition utf8_code_point :: "nat \<Rightarrow> nat list" where
  "utf8_code_point cp =
     (if cp < 0x80 then [cp]
      else if cp < 0x800 then [0xC0 + cp div 64, 0x80 + cp mod 64]
      else if cp < 0x10000
        then [0xE0 + cp div 4096, 0x80 + cp div 64 mod 64, 0x80 + cp mod 64]
      else [0xF0 + cp div 262144 mod 8, 0x80 + cp div 4096 mod 64, 0x80 + cp div 64 mod 64,
            0x80 + cp mod 64])"

fun utf8_encode :: "jsstring \<Rightarrow> nat list" where
  "utf8_encode [] = []"
| "utf8_encode (c # cs) =
     (if 0xD800 \<le> c \<and> c < 0xDC00
      then (case cs of
              [] \<Rightarrow> [0xEF, 0xBF, 0xBD]
            | d # ds \<Rightarrow>
                if 0xDC00 \<le> d \<and> d < 0xE000
                then utf8_code_point (0x10000 + (c - 0xD800) * 0x400 + (d - 0xDC00))
                     @ utf8_encode ds
                else [0xEF, 0xBF, 0xBD] @ utf8_encode cs)
      else if 0xDC00 \<le> c \<and> c < 0xE000 then [0xEF, 0xBF, 0xBD] @ utf8_encode cs
      else utf8_code_point c @ utf8_encode cs)"

definition writeString :: "jsstring \<Rightarrow> wstate \<Rightarrow> js_error + wstate" where
  "writeString str =
     (if str = [] then put_u8 0
      else (let strBytes = utf8_encode str
            in seq_w (put_u8 (int (length strBytes) + 1))
              (seq_w (each_w (\<lambda>b. put_u8 (int b)) strBytes)
                     (put_u8 0))))"

definition writeConstant :: "VMConstant \<Rightarrow> wstate \<Rightarrow> js_error + wstate" where
  "writeConstant constant =
     (case k_value constant of
        KNil \<Rightarrow> put_u8 0
      | KBoolean b \<Rightarrow> seq_w (put_u8 1) (put_u8 (if b then 1 else 0))
      | KNumber n \<Rightarrow> seq_w (put_u8 3) (put_i64 n)
      | KNaN \<Rightarrow> seq_w (put_u8 19) (put_f64 0x7FF8000000000000)
      | KString str \<Rightarrow> seq_w (put_u8 4) (writeString str))"

text \<open>
  \<open>encodeInstruction\<close> works on 32-bit integers; the word is what \<open>setUint32\<close> then writes.
\<close>

definition encodeInstruction :: "VMInstruction \<Rightarrow> 32 word" where
  "encodeInstruction instruction =
     (let encoded = (of_nat (i_opcode instruction) AND 0x3F)
                    OR push_bit 6 (word_of_int (i_a instruction) AND 0xFF)
      in case i_bx instruction of
           Some bx \<Rightarrow> encoded OR push_bit 14 (word_of_int bx AND 0x3FFFF)
         | None \<Rightarrow>
            (case i_sbx instruction of
               Some sbx \<Rightarrow> encoded OR push_bit 14 (word_of_int (sbx + 131071) AND 0x3FFFF)
             | None \<Rightarrow>
                (case i_ax instruction of
                   Some ax \<Rightarrow> encoded OR push_bit 6 (word_of_int ax AND 0x3FFFFFF)
                 | None \<Rightarrow>
                     encoded OR push_bit 23 (word_of_int (i_b instruction) AND 0x1FF)
                             OR push_bit 14 (word_of_int (i_c instruction) AND 0x1FF))))"

definition writeDebugInfo :: "VMProto \<Rightarrow> wstate \<Rightarrow> js_error + wstate" where
  "writeDebugInfo proto =
     seq_w (put_u32 (int (length (p_instructions proto))))
    (seq_w (each_w (\<lambda>instruction. put_u32 (case i_line instruction of None \<Rightarrow> 0 | Some l \<Rightarrow> l))
              (p_instructions proto))
    (seq_w (put_u32 0)
    (seq_w (put_u32 (int (length (p_upvalues proto))))
           (each_w (\<lambda>upvalue. writeString (u_name upvalue)) (p_upvalues proto)))))"

lemma size_p_protos: "size_list size (p_protos proto) < size proto"
  by (cases proto) simp

function writeFunction :: "VMProto \<Rightarrow> wstate \<Rightarrow> js_error + wstate"
  and writeFunctions :: "VMProto list \<Rightarrow> wstate \<Rightarrow> js_error + wstate" where
  "writeFunction proto s =
     seq_w (writeString (if p_source proto \<noteq> [] then p_source proto
                         else units ''@deobfuscated.lua''))
    (seq_w (put_u32 (p_lineDefined proto))
    (seq_w (put_u32 (p_lastLineDefined proto))
    (seq_w (put_u8 (p_numParams proto))
    (seq_w (put_u8 (if p_isVararg proto then 1 else 0))
    (seq_w (put_u8 (max (p_maxStackSize proto) 2))
    (seq_w (put_u32 (int (length (p_instructions proto))))
    (seq_w (each_w (\<lambda>instruction. put_u32 (uint (encodeInstruction instruction)))
              (p_instructions proto))
    (seq_w (put_u32 (int (length (p_constants proto))))
    (seq_w (each_w writeConstant (p_constants proto))
    (seq_w (put_u32 (int (length (p_upvalues proto))))
    (seq_w (each_w (\<lambda>upvalue. seq_w (put_u8 (if u_isLocal upvalue then 1 else 0))
                                     (put_u8 (u_register upvalue)))
              (p_upvalues proto))
    (seq_w (put_u32 (int (length (p_protos proto))))
    (seq_w (\<lambda>s'. writeFunctions (p_protos proto) s')
           (writeDebugInfo proto)))))))))))))) s"
| "writeFunctions [] s = Inr s"
| "writeFunctions (nestedProto # rest) s =
     and_then (writeFunction nestedProto s) (\<lambda>s'. writeFunctions rest s')"
  by pat_completeness auto
termination
  by (relation "measure (\<lambda>x. case x of Inl (p, s) \<Rightarrow> size p
                                      | Inr (ps, s) \<Rightarrow> size_list size ps)")
    (auto simp: size_p_protos)


declare writeFunction.simps [simp del]






subsection \<open>What is written stays written\<close>

text \<open>
  A writer that succeeds moves the offset forward, keeps the length of the buffer, and
  leaves the bytes below the old offset as they were.
\<close>

definition frame :: "wstate \<Rightarrow> wstate \<Rightarrow> bool" where
  "frame s s' \<longleftrightarrow>
     snd s \<le> snd s' \<and> dv_byteLength (fst s') = dv_byteLength (fst s) \<and>
     (\<forall>i < snd s. dv_bytes (fst s') i = dv_bytes (fst s) i)"

definition framed :: "(wstate \<Rightarrow> js_error + wstate) \<Rightarrow> bool" where
  "framed w \<longleftrightarrow> (\<forall>s s'. w s = Inr s' \<longrightarrow> frame s s')"

lemma frame_refl: "frame s s"
  by (simp add: frame_def)

lemma frame_trans: "frame s s' \<Longrightarrow> frame s' s'' \<Longrightarrow> frame s s''"
  by (auto simp: frame_def)

lemma framedD: "framed w \<Longrightarrow> w s = Inr s' \<Longrightarrow> frame s s'"
  unfolding framed_def by blast

lemma and_then_Inr_iff: "and_then r f = Inr y \<longleftrightarrow> (\<exists>x. r = Inr x \<and> f x = Inr y)"
  by (cases r) (simp_all add: and_then_def)

lemma write_bytes_below: "i < off \<Longrightarrow> write_bytes m off bs i = m i"
  by (induction bs arbitrary: m off) simp_all

lemma set_bytes_frame:
  "set_bytes dv off bs = Inr dv' \<Longrightarrow> frame (dv, off) (dv', off + length bs)"
  by (auto simp: set_bytes_def frame_def write_bytes_below split: if_splits)

lemma length_le_bytes [simp]: "length (le_bytes n v) = n"
  by (simp add: le_bytes_def)

lemma framed_put_u8 [intro!]: "framed (put_u8 v)"
  using set_bytes_frame[where bs = "le_bytes 1 v"]
  by (auto simp: framed_def put_u8_def setUint8_def and_then_Inr_iff)

lemma framed_put_u32 [intro!]: "framed (put_u32 v)"
  using set_bytes_frame[where bs = "le_bytes 4 v"]
  by (auto simp: framed_def put_u32_def setUint32_def and_then_Inr_iff)

lemma framed_put_i64 [intro!]: "framed (put_i64 v)"
  using set_bytes_frame[where bs = "le_bytes 8 v"]
  by (auto simp: framed_def put_i64_def setBigInt64_def and_then_Inr_iff)

lemma framed_put_f64 [intro!]: "framed (put_f64 v)"
  using set_bytes_frame[where bs = "le_bytes 8 v"]
  by (auto simp: framed_def put_f64_def setFloat64_def and_then_Inr_iff)

lemma framed_seq_w [intro!]: "framed w1 \<Longrightarrow> framed w2 \<Longrightarrow> framed (seq_w w1 w2)"
  unfolding framed_def seq_w_def and_then_Inr_iff by (blast intro: frame_trans)

lemma framed_each_w [intro!]:
  assumes "\<And>x. x \<in> set xs \<Longrightarrow> framed (w x)"
  shows "framed (each_w w xs)"
  using assms
proof (induction xs)
  case Nil
  show ?case by (simp add: framed_def frame_refl)
next
  case (Cons x xs)
  have "framed (w x)" "framed (each_w w xs)"
    using Cons by simp_all
  then show ?case
    unfolding framed_def each_w.simps and_then_Inr_iff by (blast intro: frame_trans)
qed

lemma framed_writeString [intro!]: "framed (writeString str)"
  by (auto simp: writeString_def Let_def)

lemma framed_writeConstant [intro!]: "framed (writeConstant constant)"
  by (auto simp: writeConstant_def split: ConstValue.splits)

lemma framed_writeDebugInfo [intro!]: "framed (writeDebugInfo proto)"
  unfolding writeDebugInfo_def by (intro framed_seq_w framed_each_w framed_put_u32 framed_writeString)

lemma framed_writeHeader: "framed writeHeader"
  unfolding writeHeader_def by (intro framed_seq_w framed_each_w framed_put_u32 framed_put_u8
      framed_put_i64 framed_put_f64)

lemma writeFunction_frame:
  "writeFunction proto s = Inr s' \<Longrightarrow> frame s s'"
  "writeFunctions protos s = Inr s' \<Longrightarrow> frame s s'"
proof (induction proto s and protos s arbitrary: s' and s'
    rule: writeFunction_writeFunctions.induct)
  case (1 proto s)
  have q: "framed (\<lambda>s'. writeFunctions (p_protos proto) s')"
    unfolding framed_def using 1(1) by blast
  from 1(2) q show ?case
    apply (subst (asm) writeFunction.simps)
    apply (erule framedD[rotated])
    apply (intro framed_seq_w framed_each_w framed_put_u8 framed_put_u32 framed_writeString
        framed_writeConstant framed_writeDebugInfo)
    apply assumption
    done
next
  case (2 s)
  then show ?case by (simp add: frame_refl)
next
  case (3 nestedProto rest s)
  from 3(3) obtain s1 where a: "writeFunction nestedProto s = Inr s1"
    and b: "writeFunctions rest s1 = Inr s'"
    by (auto simp: and_then_Inr_iff)
  show ?case
    using frame_trans[OF "3.IH"(1)[OF a] "3.IH"(2)[OF b]] .
qed

lemma framed_writeFunction: "framed (\<lambda>s. writeFunction proto s)"
  unfolding framed_def using writeFunction_frame(1) by blast


subsection \<open>The header\<close>







subsection \<open>How many bytes are written, and when the buffer is too short\<close>






























end
